theory Spec2Isabelle
  imports Main "HOL-Library.List_Lexorder" "HOL-Library.Product_Lexorder" "HOL-Library.Multiset"
begin

section \<open>Python strings\<close>

text \<open>
  A Python \<open>str\<close> is a sequence of Unicode code points, and \<open>==\<close>, \<open><\<close> and \<open>len\<close> work on
  code points. It is modelled as a list of code points; the order on lists is the
  lexicographic one of \<open>List_Lexorder\<close>, which is the order Python uses for \<open>str\<close>, and the
  order on pairs is the lexicographic one of \<open>Product_Lexorder\<close>, the order of Python tuples.
\<close>

type_synonym pystr = "nat list"

definition ascii :: "string \<Rightarrow> pystr" where
  "ascii s = map of_char s"

definition in_ranges :: "(nat \<times> nat) list \<Rightarrow> nat \<Rightarrow> bool" where
  "in_ranges rs c = list_ex (\<lambda>r. fst r \<le> c \<and> c \<le> snd r) rs"

text \<open>
  The character classes are those of the Unicode database of CPython 3.11 (Unicode 14.0):
  \<open>str.isspace\<close> (also the characters \<open>str.strip()\<close> removes), \<open>str.isdigit\<close>
  (Numeric_Type Digit or Decimal) and \<open>str.isdecimal\<close> (category Nd, which is also what
  \<open>\d\<close> matches in a \<open>str\<close> pattern and what \<open>int()\<close> reads).
\<close>

definition space_ranges :: "(nat \<times> nat) list" where
  "space_ranges =
    [(9, 13), (28, 32), (133, 133), (160, 160), (5760, 5760), (8192, 8202), (8232, 8233),
     (8239, 8239), (8287, 8287), (12288, 12288)]"

definition digit_ranges :: "(nat \<times> nat) list" where
  "digit_ranges =
    [(48, 57), (178, 179), (185, 185), (1632, 1641), (1776, 1785), (1984, 1993),
     (2406, 2415), (2534, 2543), (2662, 2671), (2790, 2799), (2918, 2927), (3046, 3055),
     (3174, 3183), (3302, 3311), (3430, 3439), (3558, 3567), (3664, 3673), (3792, 3801),
     (3872, 3881), (4160, 4169), (4240, 4249), (4969, 4977), (6112, 6121), (6160, 6169),
     (6470, 6479), (6608, 6618), (6784, 6793), (6800, 6809), (6992, 7001), (7088, 7097),
     (7232, 7241), (7248, 7257), (8304, 8304), (8308, 8313), (8320, 8329), (9312, 9320),
     (9332, 9340), (9352, 9360), (9450, 9450), (9461, 9469), (9471, 9471), (10102, 10110),
     (10112, 10120), (10122, 10130), (42528, 42537), (43216, 43225), (43264, 43273),
     (43472, 43481), (43504, 43513), (43600, 43609), (44016, 44025), (65296, 65305),
     (66720, 66729), (68160, 68163), (68912, 68921), (69216, 69224), (69714, 69722),
     (69734, 69743), (69872, 69881), (69942, 69951), (70096, 70105), (70384, 70393),
     (70736, 70745), (70864, 70873), (71248, 71257), (71360, 71369), (71472, 71481),
     (71904, 71913), (72016, 72025), (72784, 72793), (73040, 73049), (73120, 73129),
     (92768, 92777), (92864, 92873), (93008, 93017), (120782, 120831), (123200, 123209),
     (123632, 123641), (125264, 125273), (127232, 127242), (130032, 130041)]"

text \<open>Every run of decimal digits (category Nd) is ten code points long, zero first.\<close>

definition decimal_starts :: "nat list" where
  "decimal_starts =
    [48, 1632, 1776, 1984, 2406, 2534, 2662, 2790, 2918, 3046, 3174, 3302, 3430, 3558,
     3664, 3792, 3872, 4160, 4240, 6112, 6160, 6470, 6608, 6784, 6800, 6992, 7088, 7232,
     7248, 42528, 43216, 43264, 43472, 43504, 43600, 44016, 65296, 66720, 68912, 69734,
     69872, 69942, 70096, 70384, 70736, 70864, 71248, 71360, 71472, 71904, 72016, 72784,
     73040, 73120, 92768, 92864, 93008, 120782, 120792, 120802, 120812, 120822, 123200,
     123632, 125264, 130032]"

definition isspace_cp :: "nat \<Rightarrow> bool" where
  "isspace_cp c = in_ranges space_ranges c"

definition isdigit_cp :: "nat \<Rightarrow> bool" where
  "isdigit_cp c = in_ranges digit_ranges c"

definition isdecimal_cp :: "nat \<Rightarrow> bool" where
  "isdecimal_cp c = list_ex (\<lambda>s. s \<le> c \<and> c < s + 10) decimal_starts"

definition decimal_value :: "nat \<Rightarrow> int" where
  "decimal_value c =
     (case filter (\<lambda>s. s \<le> c \<and> c < s + 10) decimal_starts of
        [] \<Rightarrow> 0
      | s # _ \<Rightarrow> int (c - s))"

definition ascii_digit :: "nat \<Rightarrow> bool" where
  "ascii_digit c = (48 \<le> c \<and> c \<le> 57)"

definition isdigit_str :: "pystr \<Rightarrow> bool" where
  \<comment> \<open>\<open>str.isdigit()\<close>: every character is a digit and there is at least one\<close>
  "isdigit_str s = (s \<noteq> [] \<and> list_all isdigit_cp s)"

definition lstrip :: "pystr \<Rightarrow> pystr" where
  "lstrip s = dropWhile isspace_cp s"

definition rstrip :: "pystr \<Rightarrow> pystr" where
  "rstrip s = rev (dropWhile isspace_cp (rev s))"

definition strip :: "pystr \<Rightarrow> pystr" where
  \<comment> \<open>\<open>str.strip()\<close> with no argument\<close>
  "strip s = rstrip (lstrip s)"

text \<open>
  \<open>str(n)\<close> of an integer, and the text of a message built with it; the messages of
  exceptions are kept as HOL strings.
\<close>

fun str_of_nat :: "nat \<Rightarrow> pystr" where
  "str_of_nat n = (if n < 10 then [48 + n] else str_of_nat (n div 10) @ [48 + n mod 10])"

definition str_of_int :: "int \<Rightarrow> pystr" where
  "str_of_int i = (if i < 0 then 45 # str_of_nat (nat (- i)) else str_of_nat (nat i))"

definition message_text :: "pystr \<Rightarrow> string" where
  \<comment> \<open>the characters of \<open>str(n)\<close> are the ten digits and the minus sign\<close>
  "message_text s = map (\<lambda>c. if c = 45 then CHR ''-'' else ''0123456789'' ! (c - 48)) s"

section \<open>Exceptions\<close>

datatype error = ValueError string | OverflowError string

section \<open>Fields: Phone\<close>

text \<open>
  A \<open>Phone\<close> object is its \<open>_value\<close>. \<open>Field.__init__\<close> assigns \<open>self.value\<close>, which runs the
  setter of the subclass, so that construction and assignment validate alike.
\<close>

definition Phone_error :: error where
  "Phone_error = ValueError ''Phone number must be 10 digits.''"

definition Phone_normalized :: "pystr \<Rightarrow> error + pystr" where
  \<comment> \<open>the body of the setter: the value it stores, or the exception it raises\<close>
  "Phone_normalized new_value =
     (let normalized = strip new_value
      in if \<not> (isdigit_str normalized \<and> length normalized = 10)
         then Inl Phone_error
         else Inr normalized)"

definition Phone_init :: "pystr \<Rightarrow> error + pystr" where
  \<comment> \<open>\<open>Phone(value)\<close>\<close>
  "Phone_init v = Phone_normalized v"

definition Phone_set_value :: "pystr \<Rightarrow> pystr \<Rightarrow> pystr \<times> (error + unit)" where
  \<comment> \<open>\<open>phone_obj.value = new_value\<close>: the object afterwards, and the outcome\<close>
  "Phone_set_value p new_value =
     (case Phone_normalized new_value of
        Inl e \<Rightarrow> (p, Inl e)
      | Inr v \<Rightarrow> (v, Inr ()))"

section \<open>Calendar dates\<close>

text \<open>
  \<open>datetime.date\<close> of the standard library: the proleptic Gregorian calendar, years 1 to
  9999, day 1 being 1 January of year 1. Integers are Python's unbounded ones; \<open>//\<close> and
  \<open>%\<close> round towards minus infinity, as \<open>div\<close> and \<open>mod\<close> on \<open>int\<close> do.
\<close>

record date =
  year :: int
  month :: int
  day :: int

definition MINYEAR :: int where "MINYEAR = 1"
definition MAXYEAR :: int where "MAXYEAR = 9999"
definition MAXORDINAL :: int where "MAXORDINAL = 3652059"

definition DAYS_IN_MONTH :: "int list" where
  "DAYS_IN_MONTH = [-1, 31, 28, 31, 30, 31, 30, 31, 31, 30, 31, 30, 31]"

definition DAYS_BEFORE_MONTH :: "int list" where
  "DAYS_BEFORE_MONTH = [-1, 0, 31, 59, 90, 120, 151, 181, 212, 243, 273, 304, 334]"

definition is_leap :: "int \<Rightarrow> bool" where
  "is_leap y = (y mod 4 = 0 \<and> (y mod 100 \<noteq> 0 \<or> y mod 400 = 0))"

definition days_before_year :: "int \<Rightarrow> int" where
  "days_before_year yr = (let y = yr - 1 in y * 365 + y div 4 - y div 100 + y div 400)"

definition days_in_month :: "int \<Rightarrow> int \<Rightarrow> int" where
  "days_in_month y m = (if m = 2 \<and> is_leap y then 29 else DAYS_IN_MONTH ! nat m)"

definition days_before_month :: "int \<Rightarrow> int \<Rightarrow> int" where
  "days_before_month y m =
     DAYS_BEFORE_MONTH ! nat m + (if m > 2 \<and> is_leap y then 1 else 0)"

definition ymd2ord :: "int \<Rightarrow> int \<Rightarrow> int \<Rightarrow> int" where
  "ymd2ord y m d = days_before_year y + days_before_month y m + d"

definition DI400Y :: int where "DI400Y = 146097"
definition DI100Y :: int where "DI100Y = 36524"
definition DI4Y :: int where "DI4Y = 1461"

definition month_day_of_offset :: "bool \<Rightarrow> int \<Rightarrow> int \<times> int" where
  \<comment> \<open>the second half of \<open>_ord2ymd\<close>: from the offset \<open>n\<close> in the year to (month, day), by
     an estimate of the month that is exact or one too large\<close>
  "month_day_of_offset leapyear n =
     (let mo = (n + 50) div 32;
          preceding = DAYS_BEFORE_MONTH ! nat mo + (if mo > 2 \<and> leapyear then 1 else 0)
      in if preceding > n
         then let mo = mo - 1;
                  preceding = preceding
                    - (DAYS_IN_MONTH ! nat mo + (if mo = 2 \<and> leapyear then 1 else 0))
              in (mo, n - preceding + 1)
         else (mo, n - preceding + 1))"

definition ord2ymd :: "int \<Rightarrow> int \<times> int \<times> int" where
  "ord2ymd n0 =
     (let n = n0 - 1;
          n400 = n div DI400Y; n = n mod DI400Y;
          yr = n400 * 400 + 1;
          n100 = n div DI100Y; n = n mod DI100Y;
          n4 = n div DI4Y; n = n mod DI4Y;
          n1 = n div 365; n = n mod 365;
          yr = yr + (n100 * 100 + n4 * 4 + n1)
      in if n1 = 4 \<or> n100 = 4 then (yr - 1, 12, 31)
         else
           let leapyear = (n1 = 3 \<and> (n4 \<noteq> 24 \<or> n100 = 3))
           in case month_day_of_offset leapyear n of (mo, dd) \<Rightarrow> (yr, mo, dd))"

definition date_new :: "int \<Rightarrow> int \<Rightarrow> int \<Rightarrow> error + date" where
  \<comment> \<open>\<open>date(year, month, day)\<close>, with the checks of the constructor in their order\<close>
  "date_new y m d =
     (if \<not> (MINYEAR \<le> y \<and> y \<le> MAXYEAR)
      then Inl (ValueError (''year '' @ message_text (str_of_int y) @ '' is out of range''))
      else if \<not> (1 \<le> m \<and> m \<le> 12) then Inl (ValueError ''month must be in 1..12'')
      else if \<not> (1 \<le> d \<and> d \<le> days_in_month y m)
      then Inl (ValueError ''day is out of range for month'')
      else Inr \<lparr>year = y, month = m, day = d\<rparr>)"

definition valid_date :: "date \<Rightarrow> bool" where
  \<comment> \<open>what the constructor checks: every \<open>date\<close> object satisfies it\<close>
  "valid_date dt =
     (MINYEAR \<le> year dt \<and> year dt \<le> MAXYEAR \<and> 1 \<le> month dt \<and> month dt \<le> 12 \<and> 1 \<le> day dt
      \<and> day dt \<le> days_in_month (year dt) (month dt))"

definition toordinal :: "date \<Rightarrow> int" where
  "toordinal dt = ymd2ord (year dt) (month dt) (day dt)"

definition fromordinal :: "int \<Rightarrow> error + date" where
  "fromordinal n = (case ord2ymd n of (y, m, d) \<Rightarrow> date_new y m d)"

definition date_add :: "date \<Rightarrow> int \<Rightarrow> error + date" where
  \<comment> \<open>\<open>dt + timedelta(days=k)\<close>\<close>
  "date_add dt k =
     (let n = toordinal dt + k
      in if 0 < n \<and> n \<le> MAXORDINAL then fromordinal n
         else Inl (OverflowError ''date value out of range''))"

definition weekday :: "date \<Rightarrow> int" where
  \<comment> \<open>Monday is 0, Sunday is 6\<close>
  "weekday dt = (toordinal dt + 6) mod 7"

definition date_key :: "date \<Rightarrow> int \<times> int \<times> int" where
  "date_key dt = (year dt, month dt, day dt)"

definition date_le :: "date \<Rightarrow> date \<Rightarrow> bool" where
  \<comment> \<open>\<open>a <= b\<close> on dates compares the tuples (year, month, day)\<close>
  "date_le a b = (date_key a \<le> date_key b)"

definition date_ge :: "date \<Rightarrow> date \<Rightarrow> bool" where
  "date_ge a b = (date_key a \<ge> date_key b)"

subsection \<open>Formatting\<close>

text \<open>
  \<open>strftime\<close> hands the format to the C library. \<open>%d\<close> and \<open>%m\<close> are two digits, zero
  padded. \<open>%Y\<close> is the year in decimal: four digits for the years 1000 to 9999; below
  1000 the C library decides on the padding, and glibc, modelled here, does not pad.
\<close>

definition zfill :: "nat \<Rightarrow> pystr \<Rightarrow> pystr" where
  "zfill w s = replicate (w - length s) 48 @ s"

definition strftime_Ymd :: "date \<Rightarrow> pystr" where
  \<comment> \<open>\<open>dt.strftime("%Y-%m-%d")\<close>\<close>
  "strftime_Ymd dt =
     str_of_nat (nat (year dt)) @ [45] @ zfill 2 (str_of_nat (nat (month dt))) @ [45]
       @ zfill 2 (str_of_nat (nat (day dt)))"

definition strftime_dmY :: "date \<Rightarrow> pystr" where
  \<comment> \<open>\<open>dt.strftime("%d.%m.%Y")\<close>, as \<open>show_birthday\<close> and \<open>show_all\<close> print a birthday\<close>
  "strftime_dmY dt =
     zfill 2 (str_of_nat (nat (day dt))) @ [46] @ zfill 2 (str_of_nat (nat (month dt))) @ [46]
       @ str_of_nat (nat (year dt))"

subsection \<open>Parsing: \<open>datetime.strptime(raw, "%d.%m.%Y")\<close>\<close>

text \<open>
  \<open>_strptime\<close> turns the format into the regular expression
  \<^verbatim>\<open>(?P<d>3[0-1]|[1-2]\d|0[1-9]|[1-9]| [1-9])\.(?P<m>1[0-2]|0[1-9]|[1-9])\.(?P<Y>\d\d\d\d)\<close>,
  matches it at the start of the string, refuses text left over after the match, reads the
  groups with \<open>int()\<close> and builds the date. Each group below returns its matches as
  (matched text, rest), in the order in which the backtracking matcher tries them.
\<close>

definition re_d :: "pystr \<Rightarrow> (pystr \<times> pystr) list" where
  "re_d s =
     (case s of c1 # c2 # r \<Rightarrow>
        (if c1 = 51 \<and> 48 \<le> c2 \<and> c2 \<le> 49 then [([c1, c2], r)] else [])
        @ (if 49 \<le> c1 \<and> c1 \<le> 50 \<and> isdecimal_cp c2 then [([c1, c2], r)] else [])
        @ (if c1 = 48 \<and> 49 \<le> c2 \<and> c2 \<le> 57 then [([c1, c2], r)] else [])
      | _ \<Rightarrow> [])
     @ (case s of c1 # r \<Rightarrow> if 49 \<le> c1 \<and> c1 \<le> 57 then [([c1], r)] else [] | _ \<Rightarrow> [])
     @ (case s of c1 # c2 # r \<Rightarrow>
          if c1 = 32 \<and> 49 \<le> c2 \<and> c2 \<le> 57 then [([c1, c2], r)] else []
        | _ \<Rightarrow> [])"

definition re_m :: "pystr \<Rightarrow> (pystr \<times> pystr) list" where
  "re_m s =
     (case s of c1 # c2 # r \<Rightarrow>
        (if c1 = 49 \<and> 48 \<le> c2 \<and> c2 \<le> 50 then [([c1, c2], r)] else [])
        @ (if c1 = 48 \<and> 49 \<le> c2 \<and> c2 \<le> 57 then [([c1, c2], r)] else [])
      | _ \<Rightarrow> [])
     @ (case s of c1 # r \<Rightarrow> if 49 \<le> c1 \<and> c1 \<le> 57 then [([c1], r)] else [] | _ \<Rightarrow> [])"

definition re_Y :: "pystr \<Rightarrow> (pystr \<times> pystr) list" where
  "re_Y s =
     (case s of c1 # c2 # c3 # c4 # r \<Rightarrow>
        if isdecimal_cp c1 \<and> isdecimal_cp c2 \<and> isdecimal_cp c3 \<and> isdecimal_cp c4
        then [([c1, c2, c3, c4], r)] else []
      | _ \<Rightarrow> [])"

definition re_dot :: "pystr \<Rightarrow> pystr list" where
  "re_dot s = (case s of c # r \<Rightarrow> if c = 46 then [r] else [] | _ \<Rightarrow> [])"

definition format_regex_match :: "pystr \<Rightarrow> (pystr \<times> pystr \<times> pystr \<times> pystr) option" where
  \<comment> \<open>the first match, as (d, m, Y, text after the match)\<close>
  "format_regex_match s =
     (case [(d, m, y, r5). (d, r1) \<leftarrow> re_d s, r2 \<leftarrow> re_dot r1, (m, r3) \<leftarrow> re_m r2,
                           r4 \<leftarrow> re_dot r3, (y, r5) \<leftarrow> re_Y r4] of
        [] \<Rightarrow> None
      | x # _ \<Rightarrow> Some x)"

definition py_int :: "pystr \<Rightarrow> int" where
  \<comment> \<open>\<open>int(s)\<close> on the text of a group: blanks around it dropped, decimal digits read\<close>
  "py_int s = foldl (\<lambda>acc c. 10 * acc + decimal_value c) 0 (strip s)"

definition strptime_dmY :: "pystr \<Rightarrow> error + date" where
  "strptime_dmY data_string =
     (case format_regex_match data_string of
        None \<Rightarrow> Inl (ValueError ''time data does not match format'')
      | Some (d, m, y, rest) \<Rightarrow>
          if rest \<noteq> [] then Inl (ValueError ''unconverted data remains'')
          else date_new (py_int y) (py_int m) (py_int d))"

section \<open>Fields: Birthday\<close>

definition Birthday_error :: error where
  "Birthday_error = ValueError ''Invalid date format. Use DD.MM.YYYY''"

definition Birthday_init :: "pystr \<Rightarrow> error + date" where
  \<comment> \<open>\<open>Birthday(value)\<close>: the parsed date it stores, or the exception it raises\<close>
  "Birthday_init new_value =
     (let raw = strip new_value
      in case strptime_dmY raw of
           Inl (ValueError _) \<Rightarrow> Inl Birthday_error
         | Inl e \<Rightarrow> Inl e
         | Inr parsed \<Rightarrow> Inr parsed)"

section \<open>Record\<close>

text \<open>
  A record owns its \<open>Phone\<close> objects: \<open>add_phone\<close> makes a fresh one at every call and no
  method hands one to a second list, so the list of phones is modelled by the list of their
  values. A method returns the record as it is after the call together with the outcome, an
  exception or the returned value.
\<close>

record Record =
  name :: pystr
  phones :: "pystr list"
  birthday :: "date option"

definition Record_init :: "pystr \<Rightarrow> Record" where
  "Record_init n = \<lparr>name = n, phones = [], birthday = None\<rparr>"

fun find_phone_index :: "pystr list \<Rightarrow> pystr \<Rightarrow> nat option" where
  \<comment> \<open>the loop of \<open>find_phone\<close>: the position of the first phone whose value is \<open>phone\<close>\<close>
  "find_phone_index [] phone = None"
| "find_phone_index (p # ps) phone =
     (if p = phone then Some 0 else map_option Suc (find_phone_index ps phone))"

definition find_phone :: "Record \<Rightarrow> pystr \<Rightarrow> pystr option" where
  "find_phone r phone = map_option (\<lambda>i. phones r ! i) (find_phone_index (phones r) phone)"

definition add_phone :: "Record \<Rightarrow> pystr \<Rightarrow> Record \<times> (error + pystr)" where
  "add_phone r phone =
     (case Phone_init phone of
        Inl e \<Rightarrow> (r, Inl e)
      | Inr phone_obj \<Rightarrow> (r\<lparr>phones := phones r @ [phone_obj]\<rparr>, Inr phone_obj))"

definition remove_phone :: "Record \<Rightarrow> pystr \<Rightarrow> Record \<times> (error + bool)" where
  "remove_phone r phone =
     (case find_phone_index (phones r) phone of
        None \<Rightarrow> (r, Inr False)
      | Some i \<Rightarrow> (r\<lparr>phones := take i (phones r) @ drop (Suc i) (phones r)\<rparr>, Inr True))"

definition edit_phone :: "Record \<Rightarrow> pystr \<Rightarrow> pystr \<Rightarrow> Record \<times> (error + bool)" where
  "edit_phone r old_phone new_phone =
     (case find_phone_index (phones r) old_phone of
        None \<Rightarrow> (r, Inr False)
      | Some i \<Rightarrow>
          (case Phone_set_value (phones r ! i) new_phone of
             (p, Inl e) \<Rightarrow> (r\<lparr>phones := (phones r)[i := p]\<rparr>, Inl e)
           | (p, Inr _) \<Rightarrow> (r\<lparr>phones := (phones r)[i := p]\<rparr>, Inr True)))"

definition add_birthday :: "Record \<Rightarrow> pystr \<Rightarrow> Record \<times> (error + date)" where
  "add_birthday r b =
     (case Birthday_init b of
        Inl e \<Rightarrow> (r, Inl e)
      | Inr bd \<Rightarrow> (r\<lparr>birthday := Some bd\<rparr>, Inr bd))"

section \<open>AddressBook\<close>

text \<open>
  \<open>self.data\<close> is a \<open>dict\<close>, which keeps its keys in insertion order: an association list
  with distinct keys. Assigning to a key that is present replaces its value in place,
  assigning to a new key appends.
\<close>

type_synonym AddressBook = "(pystr \<times> Record) list"

fun dict_set :: "('k \<times> 'v) list \<Rightarrow> 'k \<Rightarrow> 'v \<Rightarrow> ('k \<times> 'v) list" where
  "dict_set [] k v = [(k, v)]"
| "dict_set ((k', v') # kvs) k v =
     (if k' = k then (k, v) # kvs else (k', v') # dict_set kvs k v)"

definition add_record :: "AddressBook \<Rightarrow> Record \<Rightarrow> AddressBook" where
  "add_record book r = dict_set book (name r) r"

definition find_rec :: "AddressBook \<Rightarrow> pystr \<Rightarrow> Record option" where
  "find_rec book n = map_of book n"

definition delete :: "AddressBook \<Rightarrow> pystr \<Rightarrow> AddressBook \<times> bool" where
  "delete book n =
     (if n \<in> set (map fst book) then (filter (\<lambda>kv. fst kv \<noteq> n) book, True)
      else (book, False))"

record entry =
  entry_name :: pystr
  congratulation_date :: pystr

definition this_year_birthday :: "int \<Rightarrow> int \<Rightarrow> int \<Rightarrow> error + date option" where
  \<comment> \<open>lines 116 to 122: \<open>bday_this_year\<close>, or \<open>None\<close> where the loop continues\<close>
  "this_year_birthday y m d =
     (case date_new y m d of
        Inr dt \<Rightarrow> Inr (Some dt)
      | Inl (ValueError _) \<Rightarrow>
          if m = 2 \<and> d = 29 then map_sum id Some (date_new y 2 28) else Inr None
      | Inl e \<Rightarrow> Inl e)"

definition candidate_of :: "date \<Rightarrow> date \<Rightarrow> int \<Rightarrow> int \<Rightarrow> error + date" where
  \<comment> \<open>line 124\<close>
  "candidate_of today bday_this_year m d =
     (if date_ge bday_this_year today then Inr bday_this_year
      else date_new (year today + 1) m (if \<not> (m = 2 \<and> d = 29) then d else 28))"

definition shift_weekend :: "date \<Rightarrow> error + date" where
  \<comment> \<open>lines 127 to 131\<close>
  "shift_weekend candidate =
     (if weekday candidate = 5 then date_add candidate 2
      else if weekday candidate = 6 then date_add candidate 1
      else Inr candidate)"

definition upcoming_of :: "date \<Rightarrow> date \<Rightarrow> Record \<Rightarrow> error + entry option" where
  \<comment> \<open>the body of the loop: the entry it appends for one record, if any\<close>
  "upcoming_of today end_date r =
     (case birthday r of
        None \<Rightarrow> Inr None
      | Some bday \<Rightarrow>
          (case this_year_birthday (year today) (month bday) (day bday) of
             Inl e \<Rightarrow> Inl e
           | Inr None \<Rightarrow> Inr None
           | Inr (Some bday_this_year) \<Rightarrow>
               (case candidate_of today bday_this_year (month bday) (day bday) of
                  Inl e \<Rightarrow> Inl e
                | Inr candidate \<Rightarrow>
                    if date_le today candidate \<and> date_le candidate end_date
                    then (case shift_weekend candidate of
                            Inl e \<Rightarrow> Inl e
                          | Inr cd \<Rightarrow>
                              Inr (Some \<lparr>entry_name = name r,
                                         congratulation_date = strftime_Ymd cd\<rparr>))
                    else Inr None)))"

fun upcoming_loop :: "date \<Rightarrow> date \<Rightarrow> Record list \<Rightarrow> entry list \<Rightarrow> error + entry list" where
  "upcoming_loop today end_date [] upcoming = Inr upcoming"
| "upcoming_loop today end_date (r # rs) upcoming =
     (case upcoming_of today end_date r of
        Inl e \<Rightarrow> Inl e
      | Inr None \<Rightarrow> upcoming_loop today end_date rs upcoming
      | Inr (Some e) \<Rightarrow> upcoming_loop today end_date rs (upcoming @ [e]))"

definition sort_upcoming :: "entry list \<Rightarrow> entry list" where
  \<comment> \<open>\<open>upcoming.sort(key=lambda x: (x["congratulation_date"], x["name"]))\<close>, a stable sort\<close>
  "sort_upcoming upcoming = sort_key (\<lambda>x. (congratulation_date x, entry_name x)) upcoming"

definition get_upcoming_birthdays :: "date \<Rightarrow> AddressBook \<Rightarrow> error + entry list" where
  \<comment> \<open>\<open>today\<close> is what \<open>date.today()\<close> returns\<close>
  "get_upcoming_birthdays today book =
     (case date_add today 7 of
        Inl e \<Rightarrow> Inl e
      | Inr end_date \<Rightarrow>
          (case upcoming_loop today end_date (map snd book) [] of
             Inl e \<Rightarrow> Inl e
           | Inr upcoming \<Rightarrow> Inr (sort_upcoming upcoming)))"

section \<open>Reachable states\<close>

inductive record_op :: "Record \<Rightarrow> Record \<Rightarrow> bool" where
  op_add_phone: "record_op r (fst (add_phone r phone))"
| op_remove_phone: "record_op r (fst (remove_phone r phone))"
| op_edit_phone: "record_op r (fst (edit_phone r old_phone new_phone))"
| op_add_birthday: "record_op r (fst (add_birthday r b))"

inductive reachable_record :: "Record \<Rightarrow> bool" where
  reach_init: "reachable_record (Record_init n)"
| reach_op: "reachable_record r \<Longrightarrow> record_op r r' \<Longrightarrow> reachable_record r'"

inductive reachable_book :: "AddressBook \<Rightarrow> bool" where
  book_empty: "reachable_book []"
| book_add_record: "reachable_book book \<Longrightarrow> reachable_record r \<Longrightarrow>
    reachable_book (add_record book r)"
| book_delete: "reachable_book book \<Longrightarrow> reachable_book (fst (delete book n))"
| book_record_op: "reachable_book book \<Longrightarrow> find_rec book n = Some r \<Longrightarrow> record_op r r' \<Longrightarrow>
    reachable_book (dict_set book n r')"

definition valid_phone :: "pystr \<Rightarrow> bool" where
  \<comment> \<open>the rule the setter of \<open>Phone\<close> enforces on the value it stores\<close>
  "valid_phone p = (length p = 10 \<and> list_all isdigit_cp p)"

section \<open>Example data\<close>

definition rec0 :: Record where
  "rec0 = \<lparr>name = ascii ''Bob'', phones = [ascii ''0501234567'', ascii ''0670000000''],
     birthday = None\<rparr>"

definition rec1 :: Record where
  "rec1 = fst (add_phone (Record_init (ascii ''Bob'')) (ascii '' 0501234567 ''))"

definition rec2 :: Record where
  \<comment> \<open>ten times SUPERSCRIPT TWO, U+00B2\<close>
  "rec2 = fst (add_phone (Record_init (ascii ''Bob''))
                 [178, 178, 178, 178, 178, 178, 178, 178, 178, 178])"

definition book7 :: AddressBook where
  "book7 =
     [(ascii ''Zoe'', \<lparr>name = ascii ''Zoe'', phones = [],
                       birthday = Some \<lparr>year = 1990, month = 1, day = 6\<rparr>\<rparr>),
      (ascii ''Bob'', \<lparr>name = ascii ''Bob'', phones = [],
                       birthday = Some \<lparr>year = 1985, month = 1, day = 3\<rparr>\<rparr>),
      (ascii ''Amy'', \<lparr>name = ascii ''Amy'', phones = [],
                       birthday = Some \<lparr>year = 2000, month = 1, day = 8\<rparr>\<rparr>),
      (ascii ''Dan'', \<lparr>name = ascii ''Dan'', phones = [], birthday = None\<rparr>)]"



section \<open>Strings and phone numbers\<close>

lemma ascii_digit_isdigit: "ascii_digit c \<Longrightarrow> isdigit_cp c"
  by (simp add: ascii_digit_def isdigit_cp_def in_ranges_def digit_ranges_def)

lemma isspace_bound: "isspace_cp c \<Longrightarrow> c < 48 \<or> (57 < c \<and> c < 178) \<or> c = 5760 \<or> (8192 \<le> c \<and> c \<le> 8202) \<or> c = 8232 \<or> c = 8233 \<or> c = 8239 \<or> c = 8287 \<or> c = 12288"
  unfolding isspace_cp_def in_ranges_def space_ranges_def by simp arith

lemma strip_id: "s \<noteq> [] \<Longrightarrow> \<not> isspace_cp (hd s) \<Longrightarrow> \<not> isspace_cp (last s) \<Longrightarrow> strip s = s"
proof -
  assume a: "s \<noteq> []" "\<not> isspace_cp (hd s)" "\<not> isspace_cp (last s)"
  have 1: "lstrip s = s" using a by (simp add: lstrip_def dropWhile_eq_self_iff)
  have "hd (rev s) = last s" using a by (simp add: hd_rev)
  then have "dropWhile isspace_cp (rev s) = rev s" using a by (simp add: dropWhile_eq_self_iff)
  then have 2: "rstrip s = s" by (simp add: rstrip_def)
  show ?thesis by (simp add: strip_def 1 2)
qed

lemma strip_Nil: "strip [] = []" by (simp add: strip_def lstrip_def rstrip_def)

lemma digit_not_space: "isdigit_cp c \<Longrightarrow> \<not> isspace_cp c"
proof
  assume d: "isdigit_cp c" and sp: "isspace_cp c"
  note defs = isdigit_cp_def in_ranges_def digit_ranges_def
  from isspace_bound[OF sp] consider
      (a) "c < 48" | (b) "57 < c" "c < 178" | (c) "c = 5760" | (d) "8192 \<le> c" "c \<le> 8202"
    | (e) "c = 8232" | (f) "c = 8233" | (g) "c = 8239" | (h) "c = 8287" | (i) "c = 12288"
    by blast
  then show False
  proof cases
    case a with d show ?thesis by (simp add: defs)
  next
    case b with d show ?thesis by (simp add: defs)
  next
    case c with d show ?thesis by (simp add: defs)
  next
    case d with \<open>isdigit_cp c\<close> show ?thesis by (simp add: defs)
  next
    case e with d show ?thesis by (simp add: defs)
  next
    case f with d show ?thesis by (simp add: defs)
  next
    case g with d show ?thesis by (simp add: defs)
  next
    case h with d show ?thesis by (simp add: defs)
  next
    case i with d show ?thesis by (simp add: defs)
  qed
qed

lemma valid_phone_strip:
  assumes "list_all isdigit_cp s" shows "strip s = s"
proof (cases "s = []")
  case True then show ?thesis by (simp add: strip_Nil)
next
  case False
  then have "hd s \<in> set s" "last s \<in> set s" by simp_all
  with assms have "isdigit_cp (hd s)" "isdigit_cp (last s)" by (simp_all add: list_all_iff)
  then show ?thesis using False by (intro strip_id) (simp_all add: digit_not_space)
qed

lemma strip_shorter: "length (strip s) \<le> length s"
proof -
  have "length (rstrip t) \<le> length t" for t
    unfolding rstrip_def using length_dropWhile_le[of isspace_cp "rev t"] by simp
  moreover have "length (lstrip s) \<le> length s" by (simp add: lstrip_def length_dropWhile_le)
  ultimately show ?thesis unfolding strip_def by (meson order_trans)
qed

lemma strip_same_length: "length (strip s) = length s \<Longrightarrow> strip s = s"
proof -
  assume a: "length (strip s) = length s"
  have l1: "length (rstrip (lstrip s)) \<le> length (lstrip s)"
    unfolding rstrip_def using length_dropWhile_le[of isspace_cp "rev (lstrip s)"] by simp
  have l2: "length (lstrip s) \<le> length s" by (simp add: lstrip_def length_dropWhile_le)
  from a l1 l2 have e1: "length (lstrip s) = length s" and e2: "length (rstrip (lstrip s)) = length (lstrip s)"
    by (simp_all add: strip_def)
  have "takeWhile isspace_cp s @ dropWhile isspace_cp s = s" by simp
  then have "length (takeWhile isspace_cp s) + length (lstrip s) = length s"
    unfolding lstrip_def by (metis length_append)
  with e1 have "takeWhile isspace_cp s = []" by simp
  then have s1: "lstrip s = s" unfolding lstrip_def by (metis takeWhile_dropWhile_id append_Nil)
  have "takeWhile isspace_cp (rev s) @ dropWhile isspace_cp (rev s) = rev s" by simp
  then have "length (takeWhile isspace_cp (rev s)) + length (rstrip s) = length s"
    unfolding rstrip_def by (metis length_append length_rev)
  with e2 s1 have "takeWhile isspace_cp (rev s) = []" by simp
  then have "dropWhile isspace_cp (rev s) = rev s" by (metis takeWhile_dropWhile_id append_Nil)
  then have "rstrip s = s" by (simp add: rstrip_def)
  with s1 show ?thesis by (simp add: strip_def)
qed


lemma Phone_normalized_eq:
  "Phone_normalized raw =
     (if length (strip raw) = 10 \<and> list_all isdigit_cp (strip raw) then Inr (strip raw)
      else Inl Phone_error)"
  by (auto simp: Phone_normalized_def isdigit_str_def Let_def)

lemma Phone_normalized_fixed:
  "length p = 10 \<Longrightarrow> list_all isdigit_cp p \<Longrightarrow> Phone_normalized p = Inr p"
  by (simp add: Phone_normalized_eq valid_phone_strip)

lemma Phone_normalized_Inr:
  "Phone_normalized raw = Inr v \<Longrightarrow> v = strip raw \<and> length v = 10 \<and> list_all isdigit_cp v"
  by (auto simp: Phone_normalized_eq split: if_splits)

lemma find_phone_index_None: "find_phone_index ps x = None \<longleftrightarrow> x \<notin> set ps"
  by (induction ps) auto

lemma find_phone_index_Some:
  "find_phone_index ps x = Some i \<Longrightarrow> i < length ps \<and> ps ! i = x \<and> (\<forall>j<i. ps ! j \<noteq> x)"
proof (induction ps arbitrary: i)
  case Nil then show ?case by simp
next
  case (Cons p ps)
  show ?case
  proof (cases "p = x")
    case True with Cons.prems show ?thesis by simp
  next
    case False
    with Cons.prems obtain k where k: "find_phone_index ps x = Some k" "i = Suc k" by auto
    from Cons.IH[OF k(1)] have ih: "k < length ps" "ps ! k = x" "\<forall>j<k. ps ! j \<noteq> x" by auto
    have "\<forall>j<Suc k. (p # ps) ! j \<noteq> x"
    proof (intro allI impI)
      fix j assume "j < Suc k"
      then show "(p # ps) ! j \<noteq> x" using False ih(3) by (cases j) auto
    qed
    with ih k show ?thesis by simp
  qed
qed

lemma find_phone_mem: "x \<in> set ps \<Longrightarrow> \<exists>i. find_phone_index ps x = Some i"
  using find_phone_index_None[of ps x] by (cases "find_phone_index ps x") auto

lemma find_phone_eq: "find_phone r x = (if x \<in> set (phones r) then Some x else None)"
proof (cases "find_phone_index (phones r) x")
  case None then show ?thesis by (simp add: find_phone_def find_phone_index_None)
next
  case (Some i)
  from find_phone_index_Some[OF Some] have "phones r ! i = x" "x \<in> set (phones r)"
    by (auto simp: in_set_conv_nth)
  with Some show ?thesis by (simp add: find_phone_def)
qed


lemma record_op_phones:
  assumes "record_op r r'" and "\<forall>p\<in>set (phones r). valid_phone p"
  shows "\<forall>p\<in>set (phones r'). valid_phone p"
  using assms
proof (cases rule: record_op.cases)
  case (op_add_phone phone)
  with assms(2) show ?thesis
    by (auto simp: add_phone_def Phone_init_def valid_phone_def split: sum.splits
             dest: Phone_normalized_Inr)
next
  case (op_remove_phone phone)
  with assms(2) show ?thesis
    by (auto simp: remove_phone_def split: option.splits dest: in_set_takeD in_set_dropD)
next
  case (op_edit_phone old_phone new_phone)
  with assms(2) show ?thesis
    by (auto simp: edit_phone_def Phone_set_value_def valid_phone_def
             split: option.splits sum.splits prod.splits
             dest!: Phone_normalized_Inr set_update_subset_insert[THEN subsetD])
next
  case (op_add_birthday b)
  with assms(2) show ?thesis by (auto simp: add_birthday_def split: sum.splits)
qed

lemma reachable_record_phones:
  "reachable_record r \<Longrightarrow> \<forall>p\<in>set (phones r). valid_phone p"
proof (induction rule: reachable_record.induct)
  case (reach_init n) then show ?case by (simp add: Record_init_def)
next
  case (reach_op r r') then show ?case using record_op_phones by blast
qed


lemma ascii_valid_phone: "length s = 10 \<Longrightarrow> list_all ascii_digit s \<Longrightarrow> valid_phone s"
  by (simp add: valid_phone_def list_all_iff ascii_digit_isdigit)

lemma find_phone_index_remove1:
  "find_phone_index ps x = Some i \<Longrightarrow> take i ps @ drop (Suc i) ps = remove1 x ps"
proof (induction ps arbitrary: i)
  case Nil then show ?case by simp
next
  case (Cons p ps)
  show ?case
  proof (cases "p = x")
    case True with Cons.prems show ?thesis by simp
  next
    case False
    with Cons.prems obtain k where k: "find_phone_index ps x = Some k" "i = Suc k" by auto
    from Cons.IH[OF k(1)] False k(2) show ?thesis by simp
  qed
qed

lemma remove_phone_eq:
  "remove_phone r x =
     (if x \<in> set (phones r) then (r\<lparr>phones := remove1 x (phones r)\<rparr>, Inr True)
      else (r, Inr False))"
proof (cases "find_phone_index (phones r) x")
  case None
  then have "x \<notin> set (phones r)" by (simp add: find_phone_index_None)
  with None show ?thesis by (simp add: remove_phone_def)
next
  case (Some i)
  then have "x \<in> set (phones r)"
    using find_phone_index_None[of "phones r" x] by auto
  with Some show ?thesis by (simp add: remove_phone_def find_phone_index_remove1)
qed

lemma reachable_record_stripped:
  "reachable_record r \<Longrightarrow> q \<in> set (phones r) \<Longrightarrow> strip q = q"
  using reachable_record_phones[of r] by (auto simp: valid_phone_def valid_phone_strip)


text \<open>
  Claim C5, as the specification states it, fails: \<open>str.isdigit()\<close> also accepts digits
  outside ASCII, so \<open>Phone\<close> accepts ten Arabic-Indic digits (U+0661 to U+0669, U+0660),
  a string that does not consist of ASCII decimal digits.
\<close>

theorem Phone_init_counterexample:
  "Phone_init [1633, 1634, 1635, 1636, 1637, 1638, 1639, 1640, 1641, 1632]
     = Inr [1633, 1634, 1635, 1636, 1637, 1638, 1639, 1640, 1641, 1632]
   \<and> \<not> list_all ascii_digit (strip [1633, 1634, 1635, 1636, 1637, 1638, 1639, 1640, 1641, 1632])"
  by (simp add: Phone_init_def Phone_normalized_def isdigit_str_def strip_def lstrip_def
      rstrip_def isspace_cp_def isdigit_cp_def in_ranges_def space_ranges_def digit_ranges_def
      ascii_digit_def)

text \<open>
  Claim C5, amended: \<open>Phone(raw)\<close> succeeds if and only if the stripped input has exactly ten
  characters, each a digit in the sense of \<open>str.isdigit()\<close>; it then holds the stripped
  input. Every stripped string of ten ASCII digits is accepted and kept as it is. In every
  other case the constructor raises \<open>ValueError("Phone number must be 10 digits.")\<close>, and
  the same assignment to an existing phone leaves that phone as it was.
\<close>

theorem Phone_init_digits:
  "Phone_init raw =
     (if length (strip raw) = 10 \<and> list_all isdigit_cp (strip raw) then Inr (strip raw)
      else Inl Phone_error)
   \<and> (length (strip raw) = 10 \<and> list_all ascii_digit (strip raw)
        \<longrightarrow> Phone_init raw = Inr (strip raw))
   \<and> (length raw = 10 \<and> list_all ascii_digit raw \<longrightarrow> Phone_init raw = Inr raw)
   \<and> (length (strip raw) \<noteq> 10 \<or> \<not> list_all isdigit_cp (strip raw)
        \<longrightarrow> Phone_init raw = Inl Phone_error \<and> Phone_set_value p raw = (p, Inl Phone_error))"
proof -
  have ad: "list_all isdigit_cp s" if "list_all ascii_digit s" for s
    using that by (simp add: list_all_iff ascii_digit_isdigit)
  have 1: "Phone_init raw =
     (if length (strip raw) = 10 \<and> list_all isdigit_cp (strip raw) then Inr (strip raw)
      else Inl Phone_error)"
    by (simp add: Phone_init_def Phone_normalized_eq)
  have 2: "length (strip raw) = 10 \<and> list_all ascii_digit (strip raw)
        \<longrightarrow> Phone_init raw = Inr (strip raw)"
    using 1 ad by simp
  have 3: "length raw = 10 \<and> list_all ascii_digit raw \<longrightarrow> Phone_init raw = Inr raw"
    using ad[of raw] by (auto simp: Phone_init_def Phone_normalized_fixed)
  have 4: "length (strip raw) \<noteq> 10 \<or> \<not> list_all isdigit_cp (strip raw)
        \<longrightarrow> Phone_init raw = Inl Phone_error \<and> Phone_set_value p raw = (p, Inl Phone_error)"
    by (auto simp: Phone_init_def Phone_set_value_def Phone_normalized_eq)
  from 1 2 3 4 show ?thesis by blast
qed

text \<open>
  Witness for C5: a padded ten-digit number, the same number without blanks, a number with
  dashes, and a short number assigned to an existing phone.
\<close>

theorem Phone_init_digits_witness:
  "Phone_init (ascii '' 0501234567 '') = Inr (ascii ''0501234567'')
   \<and> Phone_init (ascii ''0501234567'') = Inr (ascii ''0501234567'')
   \<and> Phone_init (ascii ''050-123-45'') = Inl Phone_error
   \<and> Phone_set_value (ascii ''0501234567'') (ascii ''12345'')
       = (ascii ''0501234567'', Inl Phone_error)"
proof -
  note ev = ascii_def strip_def lstrip_def rstrip_def isspace_cp_def isdigit_cp_def
    in_ranges_def space_ranges_def digit_ranges_def ascii_digit_def
  have s1: "strip (ascii '' 0501234567 '') = ascii ''0501234567''" by (simp add: ev)
  have h1: "length (strip (ascii '' 0501234567 '')) = 10
      \<and> list_all ascii_digit (strip (ascii '' 0501234567 ''))" by (simp add: ev)
  have h2: "length (ascii ''0501234567'') = 10 \<and> list_all ascii_digit (ascii ''0501234567'')"
    by (simp add: ev)
  have h3: "length (strip (ascii ''050-123-45'')) \<noteq> 10
      \<or> \<not> list_all isdigit_cp (strip (ascii ''050-123-45''))" by (simp add: ev)
  have h4: "length (strip (ascii ''12345'')) \<noteq> 10
      \<or> \<not> list_all isdigit_cp (strip (ascii ''12345''))" by (simp add: ev)
  from Phone_init_digits[of "ascii '' 0501234567 ''"] h1
  have a: "Phone_init (ascii '' 0501234567 '') = Inr (strip (ascii '' 0501234567 ''))" by blast
  from Phone_init_digits[of "ascii ''0501234567''"] h2
  have b: "Phone_init (ascii ''0501234567'') = Inr (ascii ''0501234567'')" by blast
  from Phone_init_digits[of "ascii ''050-123-45''"] h3
  have c: "Phone_init (ascii ''050-123-45'') = Inl Phone_error" by blast
  from Phone_init_digits[of "ascii ''12345''" "ascii ''0501234567''"] h4
  have d: "Phone_set_value (ascii ''0501234567'') (ascii ''12345'')
       = (ascii ''0501234567'', Inl Phone_error)" by blast
  from a[unfolded s1] b c d show ?thesis by (intro conjI)
qed

text \<open>
  Claim C6: \<open>edit_phone(old, new)\<close> returns \<open>False\<close>, raises nothing and leaves the record as
  it is when no stored phone equals \<open>old\<close>; when \<open>old\<close> is found and \<open>new\<close> fails the
  validation of \<open>Phone\<close>, it raises that \<open>ValueError\<close> and the record, its list of phones
  included, is as before the call; when \<open>old\<close> is found and \<open>new\<close> is valid, the first phone
  equal to \<open>old\<close> is replaced in place by the validated value and \<open>True\<close> is returned.
\<close>

theorem edit_phone_cases:
  "(find_phone r old_phone = None \<longrightarrow> edit_phone r old_phone new_phone = (r, Inr False))
   \<and> (find_phone r old_phone \<noteq> None \<and> Phone_init new_phone = Inl e
        \<longrightarrow> edit_phone r old_phone new_phone = (r, Inl e) \<and> e = Phone_error)
   \<and> (find_phone r old_phone \<noteq> None \<and> Phone_init new_phone = Inr v
        \<longrightarrow> (\<exists>i<length (phones r). phones r ! i = old_phone
              \<and> (\<forall>j<i. phones r ! j \<noteq> old_phone)
              \<and> edit_phone r old_phone new_phone = (r\<lparr>phones := (phones r)[i := v]\<rparr>, Inr True)))"
proof -
  have 1: "edit_phone r old_phone new_phone = (r, Inr False)" if "find_phone r old_phone = None"
  proof -
    from that have "find_phone_index (phones r) old_phone = None" by (simp add: find_phone_def)
    then show ?thesis by (simp add: edit_phone_def)
  qed
  have 2: "edit_phone r old_phone new_phone = (r, Inl e) \<and> e = Phone_error"
    if a: "find_phone r old_phone \<noteq> None \<and> Phone_init new_phone = Inl e"
  proof -
    from a obtain i where i: "find_phone_index (phones r) old_phone = Some i"
      by (auto simp: find_phone_def)
    have "(phones r)[i := phones r ! i] = phones r" by (rule list_update_id)
    moreover from a have "e = Phone_error"
      by (auto simp: Phone_init_def Phone_normalized_eq split: if_splits)
    ultimately show ?thesis
      using a i by (simp add: edit_phone_def Phone_set_value_def Phone_init_def)
  qed
  have 3: "\<exists>i<length (phones r). phones r ! i = old_phone \<and> (\<forall>j<i. phones r ! j \<noteq> old_phone)
      \<and> edit_phone r old_phone new_phone = (r\<lparr>phones := (phones r)[i := v]\<rparr>, Inr True)"
    if a: "find_phone r old_phone \<noteq> None \<and> Phone_init new_phone = Inr v"
  proof -
    from a obtain i where i: "find_phone_index (phones r) old_phone = Some i"
      by (auto simp: find_phone_def)
    from a i
    have "edit_phone r old_phone new_phone = (r\<lparr>phones := (phones r)[i := v]\<rparr>, Inr True)"
      by (simp add: edit_phone_def Phone_set_value_def Phone_init_def)
    with find_phone_index_Some[OF i] show ?thesis by blast
  qed
  from 1 2 3 show ?thesis by blast
qed


text \<open>
  Witness for C6: the three cases on a record with two phones.
\<close>

theorem edit_phone_cases_witness:
  "find_phone rec0 (ascii ''0000000000'') = None
   \<and> edit_phone rec0 (ascii ''0000000000'') (ascii ''1111111111'') = (rec0, Inr False)
   \<and> find_phone rec0 (ascii ''0670000000'') \<noteq> None
   \<and> edit_phone rec0 (ascii ''0670000000'') (ascii ''123'') = (rec0, Inl Phone_error)
   \<and> (\<exists>i<length (phones rec0). edit_phone rec0 (ascii ''0670000000'') (ascii '' 1111111111'')
         = (rec0\<lparr>phones := (phones rec0)[i := ascii ''1111111111'']\<rparr>, Inr True))"
proof -
  note ev = rec0_def ascii_def strip_def lstrip_def rstrip_def isspace_cp_def isdigit_cp_def
    in_ranges_def space_ranges_def digit_ranges_def find_phone_def Phone_init_def
    Phone_normalized_def isdigit_str_def Phone_error_def
  have h1: "find_phone rec0 (ascii ''0000000000'') = None" by (simp add: ev)
  have h2: "find_phone rec0 (ascii ''0670000000'') \<noteq> None \<and> Phone_init (ascii ''123'') = Inl Phone_error"
    by (simp add: ev)
  have h3: "find_phone rec0 (ascii ''0670000000'') \<noteq> None
     \<and> Phone_init (ascii '' 1111111111'') = Inr (ascii ''1111111111'')"
    by (simp add: ev)
  from edit_phone_cases[of rec0 "ascii ''0000000000''" "ascii ''1111111111''"] h1
  have a: "edit_phone rec0 (ascii ''0000000000'') (ascii ''1111111111'') = (rec0, Inr False)"
    by blast
  from edit_phone_cases[of rec0 "ascii ''0670000000''" "ascii ''123''" Phone_error] h2
  have b: "edit_phone rec0 (ascii ''0670000000'') (ascii ''123'') = (rec0, Inl Phone_error)"
    by blast
  from edit_phone_cases[of rec0 "ascii ''0670000000''" "ascii '' 1111111111''" _ "ascii ''1111111111''"] h3
  have c: "\<exists>i<length (phones rec0). edit_phone rec0 (ascii ''0670000000'') (ascii '' 1111111111'')
         = (rec0\<lparr>phones := (phones rec0)[i := ascii ''1111111111'']\<rparr>, Inr True)"
    by blast
  from h1 a h2 b c show ?thesis by blast
qed


text \<open>
  Claim C9, as the specification states it, fails: its 10-digit rule is "exactly 10 ASCII
  digits", and \<open>add_phone\<close> on a new record stores ten times SUPERSCRIPT TWO (U+00B2), a
  character that \<open>str.isdigit()\<close> accepts and that is neither an ASCII digit nor a decimal
  digit.
\<close>

theorem stored_phones_counterexample:
  "reachable_record rec2
   \<and> phones rec2 = [[178, 178, 178, 178, 178, 178, 178, 178, 178, 178]]
   \<and> \<not> list_all ascii_digit [178, 178, 178, 178, 178, 178, 178, 178, 178, 178]
   \<and> \<not> list_all isdecimal_cp [178, 178, 178, 178, 178, 178, 178, 178, 178, 178]"
proof -
  have h: "reachable_record rec2"
    unfolding rec2_def by (rule reach_op[OF reach_init op_add_phone])
  have e: "phones rec2 = [[178, 178, 178, 178, 178, 178, 178, 178, 178, 178]]"
    by (simp add: rec2_def add_phone_def Record_init_def strip_def lstrip_def
        rstrip_def isspace_cp_def isdigit_cp_def in_ranges_def space_ranges_def
        digit_ranges_def Phone_init_def Phone_normalized_def isdigit_str_def)
  have a: "\<not> list_all ascii_digit [178, 178, 178, 178, 178, 178, 178, 178, 178, 178]"
    by (simp add: ascii_digit_def)
  have d: "\<not> list_all isdecimal_cp [178, 178, 178, 178, 178, 178, 178, 178, 178, 178]"
    by (simp add: isdecimal_cp_def decimal_starts_def)
  from h e a d show ?thesis by (intro conjI)
qed

text \<open>
  Claim C9, amended: in every record reachable from \<open>Record(name)\<close> by \<open>add_phone\<close>,
  \<open>remove_phone\<close>, \<open>edit_phone\<close> and \<open>add_birthday\<close>, whether the calls succeed or raise,
  every stored phone satisfies the rule of the validator: ten characters, each a digit in
  the sense of \<open>str.isdigit()\<close>; it carries no blanks at its ends and would pass the
  validation again unchanged.
\<close>

theorem stored_phones_valid:
  "reachable_record r \<Longrightarrow>
     \<forall>p\<in>set (phones r). valid_phone p \<and> Phone_init p = Inr p \<and> strip p = p"
proof
  fix p assume r: "reachable_record r" and p: "p \<in> set (phones r)"
  from reachable_record_phones[OF r] p have v: "valid_phone p" by blast
  then have "Phone_init p = Inr p" "strip p = p"
    by (simp_all add: valid_phone_def Phone_init_def Phone_normalized_fixed valid_phone_strip)
  with v show "valid_phone p \<and> Phone_init p = Inr p \<and> strip p = p" by simp
qed

text \<open>
  Witness for C9: the record obtained by adding one padded number to a new record.
\<close>

theorem stored_phones_valid_witness:
  "reachable_record rec1 \<and> phones rec1 = [ascii ''0501234567'']
   \<and> valid_phone (ascii ''0501234567'')
   \<and> Phone_init (ascii ''0501234567'') = Inr (ascii ''0501234567'')
   \<and> strip (ascii ''0501234567'') = ascii ''0501234567''"
proof -
  have h: "reachable_record rec1"
    unfolding rec1_def by (rule reach_op[OF reach_init op_add_phone])
  have e: "phones rec1 = [ascii ''0501234567'']"
    by (simp add: rec1_def add_phone_def Record_init_def ascii_def strip_def lstrip_def
        rstrip_def isspace_cp_def isdigit_cp_def in_ranges_def space_ranges_def
        digit_ranges_def Phone_init_def Phone_normalized_def isdigit_str_def)
  then have m: "ascii ''0501234567'' \<in> set (phones rec1)" by simp
  from stored_phones_valid[OF h, rule_format, OF m] h e show ?thesis by (intro conjI) blast+
qed

text \<open>
  Claim C10: phones are stored stripped, while \<open>find_phone\<close> and \<open>remove_phone\<close> compare
  their argument, as it is given, with the stored values. On every record \<open>find_phone(x)\<close>
  returns the first stored phone equal to \<open>x\<close> itself, or \<open>None\<close>, and \<open>remove_phone(x)\<close>
  removes that first phone and returns \<open>True\<close>, or returns \<open>False\<close> and changes nothing. For
  every reachable record \<open>r\<close> and every \<open>p\<close> whose stripped form is a valid number (ten
  digits, in particular ten ASCII digits), \<open>add_phone(p)\<close> succeeds and appends the stripped
  form; afterwards \<open>find_phone(p.strip())\<close> returns the stored phone and
  \<open>remove_phone(p.strip())\<close> removes a phone; if \<open>p\<close> carries blanks at either end,
  \<open>find_phone(p)\<close> returns \<open>None\<close> and \<open>remove_phone(p)\<close> returns \<open>False\<close> and removes
  nothing; if \<open>p\<close> is already stripped, \<open>find_phone(p)\<close> succeeds.
\<close>

theorem add_phone_find_phone:
  assumes "reachable_record r" and "valid_phone (strip p)"
  shows "find_phone q x = (if x \<in> set (phones q) then Some x else None)
    \<and> remove_phone q x =
        (if x \<in> set (phones q) then (q\<lparr>phones := remove1 x (phones q)\<rparr>, Inr True)
         else (q, Inr False))
    \<and> add_phone r p = (r\<lparr>phones := phones r @ [strip p]\<rparr>, Inr (strip p))
    \<and> find_phone (fst (add_phone r p)) (strip p) = Some (strip p)
    \<and> remove_phone (fst (add_phone r p)) (strip p)
        = (r\<lparr>phones := remove1 (strip p) (phones r @ [strip p])\<rparr>, Inr True)
    \<and> (strip p \<noteq> p \<longrightarrow> find_phone (fst (add_phone r p)) p = None
          \<and> remove_phone (fst (add_phone r p)) p = (fst (add_phone r p), Inr False))
    \<and> (strip p = p \<longrightarrow> find_phone (fst (add_phone r p)) p = Some p)"
proof -
  let ?r' = "r\<lparr>phones := phones r @ [strip p]\<rparr>"
  from assms(2) have n: "Phone_normalized p = Inr (strip p)"
    by (simp add: Phone_normalized_eq valid_phone_def)
  then have a: "add_phone r p = (?r', Inr (strip p))"
    by (simp add: add_phone_def Phone_init_def)
  then have f: "fst (add_phone r p) = ?r'" by simp
  have 1: "find_phone ?r' (strip p) = Some (strip p)" by (simp add: find_phone_eq)
  have 2: "remove_phone ?r' (strip p)
        = (r\<lparr>phones := remove1 (strip p) (phones r @ [strip p])\<rparr>, Inr True)"
    by (simp add: remove_phone_eq)
  have 3: "find_phone ?r' p = None \<and> remove_phone ?r' p = (?r', Inr False)" if ne: "strip p \<noteq> p"
  proof -
    have "p \<notin> set (phones r)" using reachable_record_stripped[OF assms(1), of p] ne by blast
    with ne have "p \<notin> set (phones ?r')" by auto
    then show ?thesis by (simp add: find_phone_eq remove_phone_eq)
  qed
  have 4: "find_phone ?r' p = Some p" if "strip p = p" using 1 that by simp
  from a 1 2 3 4 show ?thesis unfolding f by (simp add: find_phone_eq remove_phone_eq)
qed

text \<open>
  Witness for C10: a padded number added to a new record is stored stripped; it is found and
  removed by its stripped form, and neither found nor removed by its padded form.
\<close>

theorem add_phone_find_phone_witness:
  "reachable_record (Record_init (ascii ''Bob''))
   \<and> valid_phone (strip (ascii '' 0501234567 ''))
   \<and> add_phone (Record_init (ascii ''Bob'')) (ascii '' 0501234567 '')
       = (rec1, Inr (ascii ''0501234567''))
   \<and> phones rec1 = [ascii ''0501234567'']
   \<and> find_phone rec1 (ascii ''0501234567'') = Some (ascii ''0501234567'')
   \<and> find_phone rec1 (ascii '' 0501234567 '') = None
   \<and> remove_phone rec1 (ascii '' 0501234567 '') = (rec1, Inr False)
   \<and> remove_phone rec1 (ascii ''0501234567'') = (Record_init (ascii ''Bob''), Inr True)"
proof -
  note ev = ascii_def strip_def lstrip_def rstrip_def isspace_cp_def in_ranges_def
    space_ranges_def
  have h1: "reachable_record (Record_init (ascii ''Bob''))" by (rule reach_init)
  have s: "strip (ascii '' 0501234567 '') = ascii ''0501234567''"
     "strip (ascii '' 0501234567 '') \<noteq> ascii '' 0501234567 ''" by (simp_all add: ev)
  have h2: "valid_phone (strip (ascii '' 0501234567 ''))"
    unfolding s(1) by (rule ascii_valid_phone) (simp_all add: ascii_def ascii_digit_def)
  note t = add_phone_find_phone[OF h1 h2, unfolded s(1)]
  from t have a: "add_phone (Record_init (ascii ''Bob'')) (ascii '' 0501234567 '')
       = (Record_init (ascii ''Bob'')\<lparr>phones := phones (Record_init (ascii ''Bob''))
            @ [ascii ''0501234567'']\<rparr>, Inr (ascii ''0501234567''))" by blast
  then have r1: "fst (add_phone (Record_init (ascii ''Bob'')) (ascii '' 0501234567 '')) = rec1"
    by (simp add: rec1_def)
  from a r1 have a': "add_phone (Record_init (ascii ''Bob'')) (ascii '' 0501234567 '')
       = (rec1, Inr (ascii ''0501234567''))" by (metis fst_conv)
  from a r1 have req: "rec1 = Record_init (ascii ''Bob'')\<lparr>phones :=
      phones (Record_init (ascii ''Bob'')) @ [ascii ''0501234567'']\<rparr>" by (metis fst_conv)
  have ph: "phones rec1 = [ascii ''0501234567'']"
    by (subst req) (simp add: Record_init_def)
  have ne: "ascii ''0501234567'' \<noteq> ascii '' 0501234567 ''" by (simp add: ascii_def)
  from t ne have b: "find_phone rec1 (ascii ''0501234567'') = Some (ascii ''0501234567'')"
    and c: "find_phone rec1 (ascii '' 0501234567 '') = None"
    and d: "remove_phone rec1 (ascii '' 0501234567 '') = (rec1, Inr False)"
    unfolding r1 by blast+
  from t have "remove_phone rec1 (ascii ''0501234567'')
        = (Record_init (ascii ''Bob'')\<lparr>phones := remove1 (ascii ''0501234567'')
             (phones (Record_init (ascii ''Bob'')) @ [ascii ''0501234567''])\<rparr>, Inr True)"
    unfolding r1 by blast
  then have e: "remove_phone rec1 (ascii ''0501234567'')
        = (Record_init (ascii ''Bob''), Inr True)"
    by (simp add: Record_init_def)
  from h1 h2 a' ph b c d e show ?thesis by (intro conjI)
qed

section \<open>The order of the upcoming birthdays\<close>

lemma sorted_pairs_names:
  fixes es :: "entry list"
  assumes "sorted (map (\<lambda>x. (congratulation_date x, entry_name x)) es)"
    and "i < j" "j < length es" "congratulation_date (es ! i) = congratulation_date (es ! j)"
  shows "entry_name (es ! i) \<le> entry_name (es ! j)"
proof -
  let ?k = "\<lambda>x. (congratulation_date x, entry_name x)"
  from assms(2,3) have "map ?k es ! i \<le> map ?k es ! j"
    using sorted_nth_mono[OF assms(1), of i j] by simp
  with assms(2,3) have "?k (es ! i) \<le> ?k (es ! j)" by simp
  with assms(4) show ?thesis by (simp add: less_eq_prod_def)
qed

text \<open>
  Claim C7: the list \<open>get_upcoming_birthdays\<close> returns is sorted in ascending order of the
  pair (\<open>congratulation_date\<close>, the text \<open>YYYY-MM-DD\<close>; \<open>name\<close>), strings compared
  lexicographically by code point and pairs lexicographically; so two entries with the same
  \<open>congratulation_date\<close> come in the order of their names. The list holds the entries the
  loop collected, each as often as it was collected.
\<close>

theorem upcoming_sorted:
  assumes "get_upcoming_birthdays today book = Inr es"
  shows "sorted (map (\<lambda>x. (congratulation_date x, entry_name x)) es)
     \<and> (\<forall>i j. i < j \<and> j < length es
            \<and> congratulation_date (es ! i) = congratulation_date (es ! j)
          \<longrightarrow> entry_name (es ! i) \<le> entry_name (es ! j))
     \<and> (\<exists>end_date upcoming. date_add today 7 = Inr end_date
            \<and> upcoming_loop today end_date (map snd book) [] = Inr upcoming
            \<and> mset es = mset upcoming)"
proof -
  from assms obtain end_date upcoming where e: "date_add today 7 = Inr end_date"
    and u: "upcoming_loop today end_date (map snd book) [] = Inr upcoming"
    and es: "es = sort_upcoming upcoming"
    by (auto simp: get_upcoming_birthdays_def split: sum.splits)
  have s: "sorted (map (\<lambda>x. (congratulation_date x, entry_name x)) es)"
    unfolding es sort_upcoming_def by (rule sorted_sort_key)
  have m: "mset es = mset upcoming" unfolding es sort_upcoming_def by simp
  from s sorted_pairs_names[OF s] e u m show ?thesis by blast
qed

text \<open>
  Witness for C7: on Monday 2024-01-01, a book holding Zoe (6 January, a Saturday), Bob
  (3 January), Amy (8 January) and Dan (no birthday), in this order. Zoe and Amy are both
  congratulated on 2024-01-08, Amy first.
\<close>

theorem upcoming_sorted_witness:
  "get_upcoming_birthdays \<lparr>year = 2024, month = 1, day = 1\<rparr> book7 =
     Inr [\<lparr>entry_name = ascii ''Bob'', congratulation_date = ascii ''2024-01-03''\<rparr>,
          \<lparr>entry_name = ascii ''Amy'', congratulation_date = ascii ''2024-01-08''\<rparr>,
          \<lparr>entry_name = ascii ''Zoe'', congratulation_date = ascii ''2024-01-08''\<rparr>]
   \<and> sorted [(ascii ''2024-01-03'', ascii ''Bob''), (ascii ''2024-01-08'', ascii ''Amy''),
              (ascii ''2024-01-08'', ascii ''Zoe'')]
   \<and> ascii ''Amy'' \<le> ascii ''Zoe''"
proof -
  let ?es = "[\<lparr>entry_name = ascii ''Bob'', congratulation_date = ascii ''2024-01-03''\<rparr>,
          \<lparr>entry_name = ascii ''Amy'', congratulation_date = ascii ''2024-01-08''\<rparr>,
          \<lparr>entry_name = ascii ''Zoe'', congratulation_date = ascii ''2024-01-08''\<rparr>]"
  have ev: "get_upcoming_birthdays \<lparr>year = 2024, month = 1, day = 1\<rparr> book7 = Inr ?es"
    by code_simp
  note t = upcoming_sorted[OF ev]
  from t have s: "sorted (map (\<lambda>x. (congratulation_date x, entry_name x)) ?es)" by blast
  from t have "(1::nat) < 2 \<and> 2 < length ?es
      \<and> congratulation_date (?es ! 1) = congratulation_date (?es ! 2)
    \<longrightarrow> entry_name (?es ! 1) \<le> entry_name (?es ! 2)" by blast
  then have n: "ascii ''Amy'' \<le> ascii ''Zoe''" by simp
  from s have s': "sorted [(ascii ''2024-01-03'', ascii ''Bob''),
      (ascii ''2024-01-08'', ascii ''Amy''), (ascii ''2024-01-08'', ascii ''Zoe'')]"
    by (simp del: sorted_wrt.simps)
  from ev s' n show ?thesis by (intro conjI)
qed

section \<open>The candidate date of a birthday\<close>

lemma month_cases:
  fixes m :: int
  assumes "1 \<le> m" "m \<le> 12"
  shows "m = 1 \<or> m = 2 \<or> m = 3 \<or> m = 4 \<or> m = 5 \<or> m = 6 \<or> m = 7 \<or> m = 8 \<or> m = 9 \<or> m = 10
    \<or> m = 11 \<or> m = 12"
  using assms by arith

lemma days_in_month_eq:
  assumes "1 \<le> m" "m \<le> 12"
  shows "days_in_month y m =
    (if m = 2 then (if is_leap y then 29 else 28)
     else if m = 4 \<or> m = 6 \<or> m = 9 \<or> m = 11 then 30 else 31)"
  using month_cases[OF assms]
  by (elim disjE) (simp_all add: days_in_month_def DAYS_IN_MONTH_def)

lemma date_new_Inr:
  "MINYEAR \<le> y \<Longrightarrow> y \<le> MAXYEAR \<Longrightarrow> 1 \<le> m \<Longrightarrow> m \<le> 12 \<Longrightarrow> 1 \<le> d \<Longrightarrow> d \<le> days_in_month y m
    \<Longrightarrow> date_new y m d = Inr \<lparr>year = y, month = m, day = d\<rparr>"
  by (simp add: date_new_def)

lemma date_new_day_error:
  "MINYEAR \<le> y \<Longrightarrow> y \<le> MAXYEAR \<Longrightarrow> 1 \<le> m \<Longrightarrow> m \<le> 12 \<Longrightarrow> days_in_month y m < d
    \<Longrightarrow> date_new y m d = Inl (ValueError ''day is out of range for month'')"
  by (simp add: date_new_def)

lemma this_year_birthday_eq:
  assumes y: "MINYEAR \<le> y" "y \<le> MAXYEAR" and b: "valid_date bday"
  shows "this_year_birthday y (month bday) (day bday) =
     Inr (Some \<lparr>year = y, month = month bday,
                 day = (if month bday = 2 \<and> day bday = 29 \<and> \<not> is_leap y then 28
                        else day bday)\<rparr>)"
proof -
  from b have m: "1 \<le> month bday" "month bday \<le> 12" and d: "1 \<le> day bday"
    and dm: "day bday \<le> days_in_month (year bday) (month bday)"
    by (simp_all add: valid_date_def)
  show ?thesis
  proof (cases "month bday = 2 \<and> day bday = 29 \<and> \<not> is_leap y")
    case True
    then have "days_in_month y 2 = 28" by (simp add: days_in_month_eq)
    with y True have 1: "date_new y (month bday) (day bday)
        = Inl (ValueError ''day is out of range for month'')"
      by (simp add: date_new_day_error)
    from y have 2: "date_new y 2 28 = Inr \<lparr>year = y, month = 2, day = 28\<rparr>"
      by (simp add: date_new_Inr days_in_month_eq)
    from 1 2 True show ?thesis by (simp add: this_year_birthday_def)
  next
    case False
    have "day bday \<le> days_in_month y (month bday)"
      using dm False by (auto simp: days_in_month_eq[OF m] split: if_splits)
    with y m d have "date_new y (month bday) (day bday)
        = Inr \<lparr>year = y, month = month bday, day = day bday\<rparr>"
      by (simp add: date_new_Inr)
    with False show ?thesis by (auto simp: this_year_birthday_def)
  qed
qed

lemma roll_forward_eq:
  assumes y: "MINYEAR \<le> y" "y \<le> MAXYEAR" and b: "valid_date bday"
  shows "date_new y (month bday) (if \<not> (month bday = 2 \<and> day bday = 29) then day bday else 28)
     = Inr \<lparr>year = y, month = month bday,
            day = (if \<not> (month bday = 2 \<and> day bday = 29) then day bday else 28)\<rparr>"
proof -
  from b have m: "1 \<le> month bday" "month bday \<le> 12" and d: "1 \<le> day bday"
    and dm: "day bday \<le> days_in_month (year bday) (month bday)"
    by (simp_all add: valid_date_def)
  let ?d = "if \<not> (month bday = 2 \<and> day bday = 29) then day bday else 28"
  have "1 \<le> ?d" using d by simp
  moreover have "?d \<le> days_in_month y (month bday)"
    using dm by (auto simp: days_in_month_eq[OF m] split: if_splits)
  ultimately show "date_new y (month bday) ?d = Inr \<lparr>year = y, month = month bday, day = ?d\<rparr>"
    using y m by (intro date_new_Inr)
qed

text \<open>
  Claim C1, as the specification states it, fails: when the candidate rolls forward, line 124
  replaces 29 February by 28 February whatever the target year is. On 2023-12-30 a birthday
  on 29 February is observed on 2023-02-28, which is earlier than today, and the candidate
  becomes 2024-02-28 although 2024 is a leap year and 2024-02-29 is a date. And in year
  9999, the last one of \<open>date\<close>, there is no next year: on 9999-06-01 the roll-forward of
  a birthday on 1 January raises \<open>ValueError\<close>.
\<close>

theorem candidate_roll_forward_counterexample:
  "this_year_birthday 2023 2 29 = Inr (Some \<lparr>year = 2023, month = 2, day = 28\<rparr>)
   \<and> \<not> date_ge \<lparr>year = 2023, month = 2, day = 28\<rparr> \<lparr>year = 2023, month = 12, day = 30\<rparr>
   \<and> is_leap (2023 + 1)
   \<and> date_new (2023 + 1) 2 29 = Inr \<lparr>year = 2024, month = 2, day = 29\<rparr>
   \<and> candidate_of \<lparr>year = 2023, month = 12, day = 30\<rparr> \<lparr>year = 2023, month = 2, day = 28\<rparr> 2 29
       = Inr \<lparr>year = 2024, month = 2, day = 28\<rparr>
   \<and> this_year_birthday 9999 1 1 = Inr (Some \<lparr>year = 9999, month = 1, day = 1\<rparr>)
   \<and> \<not> date_ge \<lparr>year = 9999, month = 1, day = 1\<rparr> \<lparr>year = 9999, month = 6, day = 1\<rparr>
   \<and> candidate_of \<lparr>year = 9999, month = 6, day = 1\<rparr> \<lparr>year = 9999, month = 1, day = 1\<rparr> 1 1
       = Inl (ValueError ''year 10000 is out of range'')"
proof -
  have a: "this_year_birthday 2023 2 29 = Inr (Some \<lparr>year = 2023, month = 2, day = 28\<rparr>)
   \<and> \<not> date_ge \<lparr>year = 2023, month = 2, day = 28\<rparr> \<lparr>year = 2023, month = 12, day = 30\<rparr>
   \<and> is_leap (2023 + 1)
   \<and> date_new (2023 + 1) 2 29 = Inr \<lparr>year = 2024, month = 2, day = 29\<rparr>
   \<and> candidate_of \<lparr>year = 2023, month = 12, day = 30\<rparr> \<lparr>year = 2023, month = 2, day = 28\<rparr> 2 29
       = Inr \<lparr>year = 2024, month = 2, day = 28\<rparr>
   \<and> this_year_birthday 9999 1 1 = Inr (Some \<lparr>year = 9999, month = 1, day = 1\<rparr>)
   \<and> \<not> date_ge \<lparr>year = 9999, month = 1, day = 1\<rparr> \<lparr>year = 9999, month = 6, day = 1\<rparr>"
    by code_simp
  have b: "candidate_of \<lparr>year = 9999, month = 6, day = 1\<rparr> \<lparr>year = 9999, month = 1, day = 1\<rparr> 1 1
       = Inl (ValueError ''year 10000 is out of range'')"
    by (simp add: candidate_of_def date_ge_def date_key_def date_new_def MINYEAR_def MAXYEAR_def
        str_of_int_def message_text_def less_eq_prod_def)
  from a b show ?thesis by blast
qed

text \<open>
  Claim C1, amended: for a stored birthday (a date), the birthday of this year is
  (today.year, month, day), with 28 February for 29 February in a year that is not a leap
  year. When it is not earlier than today it is the candidate. When it is earlier than
  today and today is before year 9999, the candidate is (today.year + 1, month, day), with
  28 February for a birthday on 29 February, whether the target year is a leap year or not.
  When it is earlier than today in year 9999, the constructor of the candidate raises
  \<open>ValueError\<close>.
\<close>

theorem candidate_roll_forward:
  assumes "valid_date today" and "valid_date bday"
  shows "\<exists>bday_this_year.
      this_year_birthday (year today) (month bday) (day bday) = Inr (Some bday_this_year)
    \<and> bday_this_year = \<lparr>year = year today, month = month bday,
           day = (if month bday = 2 \<and> day bday = 29 \<and> \<not> is_leap (year today) then 28
                  else day bday)\<rparr>
    \<and> (date_ge bday_this_year today
         \<longrightarrow> candidate_of today bday_this_year (month bday) (day bday) = Inr bday_this_year)
    \<and> (\<not> date_ge bday_this_year today \<and> year today < MAXYEAR
         \<longrightarrow> candidate_of today bday_this_year (month bday) (day bday)
             = Inr \<lparr>year = year today + 1, month = month bday,
                    day = (if month bday = 2 \<and> day bday = 29 then 28 else day bday)\<rparr>)
    \<and> (\<not> date_ge bday_this_year today \<and> year today = MAXYEAR
         \<longrightarrow> candidate_of today bday_this_year (month bday) (day bday)
             = Inl (ValueError ''year 10000 is out of range''))"
proof -
  from assms(1) have y: "MINYEAR \<le> year today" "year today \<le> MAXYEAR"
    by (simp_all add: valid_date_def)
  let ?bty = "\<lparr>year = year today, month = month bday,
           day = (if month bday = 2 \<and> day bday = 29 \<and> \<not> is_leap (year today) then 28
                  else day bday)\<rparr>"
  note 1 = this_year_birthday_eq[OF y assms(2)]
  have 3: "(if \<not> (month bday = 2 \<and> day bday = 29) then day bday else 28)
      = (if month bday = 2 \<and> day bday = 29 then 28 else day bday)" by simp
  have a: "date_ge ?bty today
     \<longrightarrow> candidate_of today ?bty (month bday) (day bday) = Inr ?bty"
    by (simp add: candidate_of_def)
  have b: "\<not> date_ge ?bty today \<and> year today < MAXYEAR
     \<longrightarrow> candidate_of today ?bty (month bday) (day bday)
             = Inr \<lparr>year = year today + 1, month = month bday,
                    day = (if month bday = 2 \<and> day bday = 29 then 28 else day bday)\<rparr>"
  proof (intro impI, elim conjE)
    assume l: "\<not> date_ge ?bty today" and "year today < MAXYEAR"
    with y have y1: "MINYEAR \<le> year today + 1" "year today + 1 \<le> MAXYEAR"
      by (simp_all add: MINYEAR_def)
    note 2 = roll_forward_eq[OF y1 assms(2)]
    from l 2[unfolded 3] show "candidate_of today ?bty (month bday) (day bday)
             = Inr \<lparr>year = year today + 1, month = month bday,
                    day = (if month bday = 2 \<and> day bday = 29 then 28 else day bday)\<rparr>"
      unfolding candidate_of_def 3 by simp
  qed
  have c: "\<not> date_ge ?bty today \<and> year today = MAXYEAR
     \<longrightarrow> candidate_of today ?bty (month bday) (day bday)
             = Inl (ValueError ''year 10000 is out of range'')"
  proof (intro impI, elim conjE)
    assume l: "\<not> date_ge ?bty today" and e: "year today = MAXYEAR"
    have "date_new (year today + 1) m x = Inl (ValueError ''year 10000 is out of range'')"
      for m x
      unfolding e
      by (simp add: date_new_def MINYEAR_def MAXYEAR_def str_of_int_def message_text_def)
    with l show "candidate_of today ?bty (month bday) (day bday)
             = Inl (ValueError ''year 10000 is out of range'')"
      by (simp add: candidate_of_def)
  qed
  from 1 a b c show ?thesis by blast
qed

text \<open>
  Witness for C1: on 2027-06-01 a birthday on 29 February rolls forward to 2028-02-28, in a
  leap year.
\<close>

theorem candidate_roll_forward_witness:
  "valid_date \<lparr>year = 2027, month = 6, day = 1\<rparr>
   \<and> year \<lparr>year = 2027, month = 6, day = 1\<rparr> < MAXYEAR
   \<and> valid_date \<lparr>year = 2000, month = 2, day = 29\<rparr>
   \<and> this_year_birthday 2027 2 29 = Inr (Some \<lparr>year = 2027, month = 2, day = 28\<rparr>)
   \<and> \<not> date_ge \<lparr>year = 2027, month = 2, day = 28\<rparr> \<lparr>year = 2027, month = 6, day = 1\<rparr>
   \<and> candidate_of \<lparr>year = 2027, month = 6, day = 1\<rparr> \<lparr>year = 2027, month = 2, day = 28\<rparr> 2 29
       = Inr \<lparr>year = 2028, month = 2, day = 28\<rparr>"
proof -
  let ?t = "\<lparr>year = 2027, month = 6, day = 1\<rparr>"
  let ?b = "\<lparr>year = 2000, month = 2, day = 29\<rparr>"
  have h1: "valid_date ?t" by code_simp
  have h2: "year ?t < MAXYEAR" by code_simp
  have h3: "valid_date ?b" by code_simp
  have l: "\<not> is_leap 2027" by code_simp
  have g: "\<not> date_ge \<lparr>year = 2027, month = 2, day = 28\<rparr> ?t" by code_simp
  from candidate_roll_forward[OF h1 h3] l g h2
  have "this_year_birthday 2027 2 29 = Inr (Some \<lparr>year = 2027, month = 2, day = 28\<rparr>)"
    and "candidate_of ?t \<lparr>year = 2027, month = 2, day = 28\<rparr> 2 29
       = Inr \<lparr>year = 2028, month = 2, day = 28\<rparr>" by auto
  with h1 h2 h3 g show ?thesis by (intro conjI)
qed

section \<open>Ordinals of dates\<close>

text \<open>
  The day number of a date and the date of a day number are inverse to each other on the
  days 1 to \<open>MAXORDINAL\<close>, day numbers follow the order of dates, and adding days to a date
  adds them to its day number.
\<close>

lemma div_step:
  fixes z k :: int
  assumes "1 < k"
  shows "(z + 1) div k = z div k + (if (z + 1) mod k = 0 then 1 else 0)"
proof -
  have e: "(z + 1) div k = z div k + 1 div k + (z mod k + 1 mod k) div k"
    by (rule div_add1_eq)
  have m: "(z + 1) mod k = (z mod k + 1) mod k" by (simp add: mod_add_left_eq)
  have b: "0 \<le> z mod k" "z mod k < k" using assms by simp_all
  show ?thesis
  proof (cases "z mod k + 1 = k")
    case True
    have d: "(z mod k + 1) div k = 1" unfolding True using assms by simp
    have "(z mod k + 1) mod k = 0" unfolding True by simp
    with m have m0: "(z + 1) mod k = 0" by simp
    have o: "1 div k = 0" "1 mod k = 1" using assms by simp_all
    from e have "(z + 1) div k = z div k + 1" unfolding o d by simp
    with m0 show ?thesis by simp
  next
    case False
    with b have "z mod k + 1 < k" by simp
    then have "(z mod k + 1) div k = 0" "(z mod k + 1) mod k = z mod k + 1"
      using b by (simp_all add: div_pos_pos_trivial mod_pos_pos_trivial)
    moreover have "z mod k + 1 \<noteq> 0" using b(1) by linarith
    ultimately show ?thesis using e m assms by simp
  qed
qed

lemma leap_combine:
  fixes A B C a b c :: int
  assumes "A = a + (if p then 1 else 0)" "B = b + (if q then 1 else 0)"
    "C = c + (if r then 1 else 0)" "q \<Longrightarrow> p" "r \<Longrightarrow> q"
  shows "A - B + C = a - b + c + (if p \<and> (\<not> q \<or> r) then 1 else 0)"
  using assms by (cases p; cases q; cases r; simp)

lemma leap_step:
  fixes z :: int
  shows "(z + 1) div 4 - (z + 1) div 100 + (z + 1) div 400
       = z div 4 - z div 100 + z div 400
         + (if (z + 1) mod 4 = 0 \<and> ((z + 1) mod 100 \<noteq> 0 \<or> (z + 1) mod 400 = 0) then 1 else 0)"
proof (rule leap_combine)
  show "(z + 1) div 4 = z div 4 + (if (z + 1) mod 4 = 0 then 1 else 0)"
    by (rule div_step) simp
  show "(z + 1) div 100 = z div 100 + (if (z + 1) mod 100 = 0 then 1 else 0)"
    by (rule div_step) simp
  show "(z + 1) div 400 = z div 400 + (if (z + 1) mod 400 = 0 then 1 else 0)"
    by (rule div_step) simp
  show "(z + 1) mod 4 = 0" if h: "(z + 1) mod 100 = 0"
  proof -
    have "(z + 1) mod 100 mod 4 = (z + 1) mod 4" by (rule mod_mod_cancel) simp
    with h show ?thesis by simp
  qed
  show "(z + 1) mod 100 = 0" if h: "(z + 1) mod 400 = 0"
  proof -
    have "(z + 1) mod 400 mod 100 = (z + 1) mod 100" by (rule mod_mod_cancel) simp
    with h show ?thesis by simp
  qed
qed

lemma md_all_leap:
  "list_all (\<lambda>k. case month_day_of_offset True k of (mo, dd) \<Rightarrow>
       1 \<le> mo \<and> mo \<le> 12 \<and> 1 \<le> dd \<and> dd \<le> days_in_month 4 mo
       \<and> days_before_month 4 mo + dd = k + 1) (map int [0..<365])"
  by code_simp

lemma md_all_common:
  "list_all (\<lambda>k. case month_day_of_offset False k of (mo, dd) \<Rightarrow>
       1 \<le> mo \<and> mo \<le> 12 \<and> 1 \<le> dd \<and> dd \<le> days_in_month 1 mo
       \<and> days_before_month 1 mo + dd = k + 1) (map int [0..<365])"
  by code_simp

lemma days_before_year_succ:
  "days_before_year (z + 1) = z * 365 + z div 4 - z div 100 + z div 400"
  by (simp add: days_before_year_def Let_def)

lemma days_before_year_decomp:
  fixes a b c e :: int
  assumes "0 \<le> b" "b \<le> 3" "0 \<le> c" "c \<le> 24" "0 \<le> e" "e \<le> 3"
  shows "days_before_year (400 * a + 100 * b + 4 * c + e + 1)
       = 146097 * a + 36524 * b + 1461 * c + 365 * e"
proof -
  let ?z = "400 * a + 100 * b + 4 * c + e"
  have d400: "?z div 400 = a"
    by (rule int_div_pos_eq[where r = "100 * b + 4 * c + e"]) (use assms in simp_all)
  have d100: "?z div 100 = 4 * a + b"
    by (rule int_div_pos_eq[where r = "4 * c + e"]) (use assms in simp_all)
  have d4: "?z div 4 = 100 * a + 25 * b + c"
    by (rule int_div_pos_eq[where r = e]) (use assms in simp_all)
  show ?thesis unfolding days_before_year_succ d400 d100 d4 by simp
qed

lemma mod_zero_iff_top:
  fixes k q r :: int
  assumes "1 \<le> r" "r \<le> k"
  shows "(k * q + r) mod k = 0 \<longleftrightarrow> r = k"
proof (cases "r = k")
  case True then show ?thesis by simp
next
  case False
  with assms have "(k * q + r) mod k = r"
    by (intro int_mod_pos_eq[where q = q]) simp_all
  with assms False show ?thesis by simp
qed

lemma is_leap_decomp:
  fixes a b c e :: int
  assumes "0 \<le> b" "b \<le> 3" "0 \<le> c" "c \<le> 24" "0 \<le> e" "e \<le> 3"
  shows "is_leap (400 * a + 100 * b + 4 * c + e + 1) \<longleftrightarrow> e = 3 \<and> (c \<noteq> 24 \<or> b = 3)"
proof -
  let ?y = "400 * a + 100 * b + 4 * c + e + 1"
  have y4: "?y = 4 * (100 * a + 25 * b + c) + (e + 1)" by simp
  have y100: "?y = 100 * (4 * a + b) + (4 * c + e + 1)" by simp
  have y400: "?y = 400 * a + (100 * b + 4 * c + e + 1)" by simp
  have m4: "?y mod 4 = 0 \<longleftrightarrow> e + 1 = 4"
    unfolding y4 by (rule mod_zero_iff_top) (use assms in simp_all)
  have m100: "?y mod 100 = 0 \<longleftrightarrow> 4 * c + e + 1 = 100"
    unfolding y100 by (rule mod_zero_iff_top) (use assms in simp_all)
  have m400: "?y mod 400 = 0 \<longleftrightarrow> 100 * b + 4 * c + e + 1 = 400"
    unfolding y400 by (rule mod_zero_iff_top) (use assms in simp_all)
  show ?thesis unfolding is_leap_def m4 m100 m400 using assms by arith
qed

lemma is_leap_4: "is_leap 4" and is_leap_1: "\<not> is_leap 1"
  by (simp_all add: is_leap_def)

lemma month_day_of_offset_correct:
  assumes r: "0 \<le> r" "r < 365"
  shows "case month_day_of_offset (is_leap y) r of (mo, dd) \<Rightarrow>
       1 \<le> mo \<and> mo \<le> 12 \<and> 1 \<le> dd \<and> dd \<le> days_in_month y mo
       \<and> days_before_month y mo + dd = r + 1"
proof -
  from r have "nat r \<in> set [0..<365]" by simp
  then have "int (nat r) \<in> set (map int [0..<365])" unfolding set_map by (rule imageI)
  with r have mem: "r \<in> set (map int [0..<365])" by simp
  show ?thesis
  proof (cases "is_leap y")
    case True
    then have e: "days_in_month y = days_in_month 4" "days_before_month y = days_before_month 4"
      using is_leap_4 by (simp_all add: days_in_month_def days_before_month_def fun_eq_iff)
    note bspec[OF md_all_leap[unfolded list_all_iff] mem]
    then show ?thesis unfolding e using True by simp
  next
    case False
    then have e: "days_in_month y = days_in_month 1" "days_before_month y = days_before_month 1"
      using is_leap_1 by (simp_all add: days_in_month_def days_before_month_def fun_eq_iff)
    note bspec[OF md_all_common[unfolded list_all_iff] mem]
    then show ?thesis unfolding e using False by simp
  qed
qed

lemma ord2ymd_correct:
  assumes n: "1 \<le> n" "n \<le> MAXORDINAL"
  shows "\<exists>y m d. ord2ymd n = (y, m, d) \<and> MINYEAR \<le> y \<and> y \<le> MAXYEAR \<and> 1 \<le> m \<and> m \<le> 12
     \<and> 1 \<le> d \<and> d \<le> days_in_month y m \<and> ymd2ord y m d = n"
proof -
  define N where "N = n - 1"
  define a where "a = N div 146097"
  define r1 where "r1 = N mod 146097"
  define b where "b = r1 div 36524"
  define r2 where "r2 = r1 mod 36524"
  define c where "c = r2 div 1461"
  define r3 where "r3 = r2 mod 1461"
  define e where "e = r3 div 365"
  define r where "r = r3 mod 365"
  have o: "ord2ymd n =
     (if e = 4 \<or> b = 4 then (a * 400 + 1 + (b * 100 + c * 4 + e) - 1, 12, 31)
      else case month_day_of_offset (e = 3 \<and> (c \<noteq> 24 \<or> b = 3)) r of
             (mo, dd) \<Rightarrow> (a * 400 + 1 + (b * 100 + c * 4 + e), mo, dd))"
    unfolding ord2ymd_def Let_def DI400Y_def DI100Y_def DI4Y_def
      r_def e_def r3_def c_def r2_def b_def r1_def a_def N_def ..
  from n have N: "0 \<le> N" "N \<le> 3652058" by (simp_all add: N_def MAXORDINAL_def)
  have N1: "N = 146097 * a + r1" "0 \<le> r1" "r1 < 146097"
    by (simp_all add: a_def r1_def)
  have R1: "r1 = 36524 * b + r2" "0 \<le> r2" "r2 < 36524"
    by (simp_all add: b_def r2_def)
  have R2: "r2 = 1461 * c + r3" "0 \<le> r3" "r3 < 1461"
    by (simp_all add: c_def r3_def)
  have R3: "r3 = 365 * e + r" "0 \<le> r" "r < 365"
    by (simp_all add: e_def r_def)
  have a0: "0 \<le> a" unfolding a_def using N(1) by (simp add: pos_imp_zdiv_nonneg_iff)
  have b0: "0 \<le> b" unfolding b_def using N1(2) by (simp add: pos_imp_zdiv_nonneg_iff)
  have c0: "0 \<le> c" unfolding c_def using R1(2) by (simp add: pos_imp_zdiv_nonneg_iff)
  have e0: "0 \<le> e" unfolding e_def using R2(2) by (simp add: pos_imp_zdiv_nonneg_iff)
  have a24: "a \<le> 24" using N(2) N1 by linarith
  have b4: "b \<le> 4" using N1(3) R1 by linarith
  have c24: "c \<le> 24" using R1(3) R2 by linarith
  have e4: "e \<le> 4" using R2(3) R3 by linarith
  have Neq: "N = 146097 * a + 36524 * b + 1461 * c + 365 * e + r"
    using N1(1) R1(1) R2(1) R3(1) by linarith
  have nN: "n = N + 1" by (simp add: N_def)
  show ?thesis
  proof (cases "b = 4")
    case True
    from True N1(3) R1 R2 R3 c0 e0 have z: "c = 0" "e = 0" "r = 0" by linarith+
    from True z Neq N(2) have a23: "a \<le> 23" by linarith
    let ?y = "400 * a + 100 * 3 + 4 * 24 + 3 + 1"
    from o True z have o': "ord2ymd n = (?y, 12, 31)" by simp
    have dby: "days_before_year ?y = 146097 * a + 36524 * 3 + 1461 * 24 + 365 * 3"
      by (rule days_before_year_decomp) simp_all
    have lp: "is_leap ?y" using is_leap_decomp[of 3 24 3 a] by simp
    have dim: "days_in_month ?y 12 = 31" by (simp add: days_in_month_def DAYS_IN_MONTH_def)
    have dbm: "days_before_month ?y 12 = 335"
      using lp by (simp add: days_before_month_def DAYS_BEFORE_MONTH_def)
    have ord: "ymd2ord ?y 12 31 = n"
      unfolding ymd2ord_def dby dbm nN Neq using True z by simp
    have yr: "MINYEAR \<le> ?y" "?y \<le> MAXYEAR"
      using a0 a23 by (simp_all add: MINYEAR_def MAXYEAR_def)
    from o' dim ord yr show ?thesis by simp
  next
    case bne: False
    with b4 have b3: "b \<le> 3" by simp
    show ?thesis
    proof (cases "e = 4")
      case True
      from True R2(3) R3 have z: "r = 0" by linarith
      from True R1(3) R2(1) R3(1) R3(2) c24 have c23: "c \<le> 23" by linarith
      let ?y = "400 * a + 100 * b + 4 * c + 3 + 1"
      from o True have o': "ord2ymd n = (?y, 12, 31)" by simp
      have dby: "days_before_year ?y = 146097 * a + 36524 * b + 1461 * c + 365 * 3"
        by (rule days_before_year_decomp) (use b0 b3 c0 c24 in simp_all)
      have lp: "is_leap ?y" using is_leap_decomp[of b c 3 a] b0 b3 c0 c23 by simp
      have dim: "days_in_month ?y 12 = 31" by (simp add: days_in_month_def DAYS_IN_MONTH_def)
      have dbm: "days_before_month ?y 12 = 335"
        using lp by (simp add: days_before_month_def DAYS_BEFORE_MONTH_def)
      have ord: "ymd2ord ?y 12 31 = n"
        unfolding ymd2ord_def dby dbm nN Neq using True z by simp
      have yr: "MINYEAR \<le> ?y" "?y \<le> MAXYEAR"
        using a0 a24 b0 b3 c0 c23 by (simp_all add: MINYEAR_def MAXYEAR_def)
      from o' dim ord yr show ?thesis by simp
    next
      case ene: False
      with e4 have e3: "e \<le> 3" by simp
      let ?y = "400 * a + 100 * b + 4 * c + e + 1"
      have lp: "is_leap ?y \<longleftrightarrow> e = 3 \<and> (c \<noteq> 24 \<or> b = 3)"
        by (rule is_leap_decomp) (use b0 b3 c0 c24 e0 e3 in simp_all)
      obtain mo dd where md: "month_day_of_offset (is_leap ?y) r = (mo, dd)"
        by (cases "month_day_of_offset (is_leap ?y) r") auto
      from month_day_of_offset_correct[OF R3(2,3), of ?y] md
      have mdc: "1 \<le> mo" "mo \<le> 12" "1 \<le> dd" "dd \<le> days_in_month ?y mo"
        "days_before_month ?y mo + dd = r + 1" by simp_all
      have ya: "a * 400 + 1 + (b * 100 + c * 4 + e) = ?y" by simp
      from o bne ene md have o': "ord2ymd n = (?y, mo, dd)"
        unfolding ya lp[symmetric] by simp
      have dby: "days_before_year ?y = 146097 * a + 36524 * b + 1461 * c + 365 * e"
        by (rule days_before_year_decomp) (use b0 b3 c0 c24 e0 e3 in simp_all)
      have ord: "ymd2ord ?y mo dd = n"
        unfolding ymd2ord_def dby nN Neq using mdc(5) by simp
      have "\<not> (a = 24 \<and> b = 3 \<and> c = 24 \<and> e = 3)" using Neq N(2) R3(2) by linarith
      with a24 b3 c24 e3 have "400 * a + 100 * b + 4 * c + e \<le> 9998" by linarith
      with a0 b0 c0 e0 have yr: "MINYEAR \<le> ?y" "?y \<le> MAXYEAR"
        by (simp_all add: MINYEAR_def MAXYEAR_def)
      from o' mdc ord yr show ?thesis by simp
    qed
  qed
qed

lemma year_step_linear:
  fixes D1 D0 y Q P c :: int
  assumes "D1 = y * 365 + Q" "D0 = (y - 1) * 365 + P" "Q = P + c"
  shows "D1 = D0 + (365 + c)"
  using assms by (simp add: left_diff_distrib)

lemma days_before_year_step:
  "days_before_year (y + 1) = days_before_year y + (if is_leap y then 366 else 365)"
proof -
  let ?Q = "y div 4 - y div 100 + y div 400"
  let ?P = "(y - 1) div 4 - (y - 1) div 100 + (y - 1) div 400"
  have 1: "days_before_year (y + 1) = y * 365 + ?Q"
    unfolding days_before_year_succ by (rule trans[OF _ add.assoc]) simp
  have 2: "days_before_year y = (y - 1) * 365 + ?P"
    unfolding days_before_year_def Let_def by (rule trans[OF _ add.assoc]) simp
  have e: "y - 1 + 1 = y" by simp
  have 3: "?Q = ?P + (if is_leap y then 1 else 0)"
    using leap_step[of "y - 1"] unfolding e is_leap_def .
  have "days_before_year (y + 1) = days_before_year y + (365 + (if is_leap y then 1 else 0))"
    by (rule year_step_linear[OF 1 2 3])
  then show ?thesis by simp
qed

lemma days_before_year_mono:
  assumes "y1 \<le> y2" shows "days_before_year y1 \<le> days_before_year y2"
  using assms
proof (induction y2 rule: int_ge_induct)
  case base show ?case by simp
next
  case (step i)
  have "days_before_year i \<le> days_before_year (i + 1)"
    unfolding days_before_year_step by simp
  with step.IH show ?case by simp
qed

lemma days_before_year_1: "days_before_year 1 = 0"
  by (simp add: days_before_year_def)

lemma days_before_year_9999: "days_before_year 9999 = 3651694"
  by (simp add: days_before_year_def)

lemma is_leap_9999: "\<not> is_leap 9999"
  by (simp add: is_leap_def)

lemma days_before_month_eq:
  assumes "1 \<le> m" "m \<le> 12"
  shows "days_before_month y m =
    (if m = 1 then 0 else if m = 2 then 31
     else (if is_leap y then 1 else 0) +
       (if m = 3 then 59 else if m = 4 then 90 else if m = 5 then 120 else if m = 6 then 151
        else if m = 7 then 181 else if m = 8 then 212 else if m = 9 then 243
        else if m = 10 then 273 else if m = 11 then 304 else 334))"
  using month_cases[OF assms]
  by (elim disjE) (simp_all add: days_before_month_def DAYS_BEFORE_MONTH_def)

lemma day_of_year_bounds:
  assumes "1 \<le> m" "m \<le> 12" "1 \<le> d" "d \<le> days_in_month y m"
  shows "1 \<le> days_before_month y m + d"
    and "days_before_month y m + d \<le> (if is_leap y then 366 else 365)"
  using month_cases[OF assms(1,2)] assms(3,4)
  by (elim disjE; simp add: days_before_month_def DAYS_BEFORE_MONTH_def days_in_month_def
        DAYS_IN_MONTH_def split: if_splits)+

lemma days_before_month_next:
  assumes "1 \<le> m" "m < m'" "m' \<le> 12"
  shows "days_before_month y m + days_in_month y m \<le> days_before_month y m'"
proof -
  from assms have m: "1 \<le> m" "m \<le> 12" and m': "1 \<le> m'" "m' \<le> 12" by simp_all
  from month_cases[OF m] month_cases[OF m'] assms(2) show ?thesis
    by (elim disjE; simp add: days_before_month_def DAYS_BEFORE_MONTH_def days_in_month_def
          DAYS_IN_MONTH_def)
qed

lemma days_before_year_10000: "days_before_year 10000 = 3652059"
  by (simp add: days_before_year_def)

lemma toordinal_bounds:
  assumes "valid_date dt"
  shows "days_before_year (year dt) < toordinal dt"
    and "toordinal dt \<le> days_before_year (year dt + 1)"
    and "1 \<le> toordinal dt"
    and "toordinal dt \<le> MAXORDINAL"
proof -
  from assms have y: "1 \<le> year dt" "year dt \<le> 9999"
    and m: "1 \<le> month dt" "month dt \<le> 12"
    and d: "1 \<le> day dt" "day dt \<le> days_in_month (year dt) (month dt)"
    by (simp_all add: valid_date_def MINYEAR_def MAXYEAR_def)
  note b = day_of_year_bounds[OF m d]
  have t: "toordinal dt = days_before_year (year dt)
      + (days_before_month (year dt) (month dt) + day dt)"
    by (simp add: toordinal_def ymd2ord_def)
  show 1: "days_before_year (year dt) < toordinal dt" unfolding t using b(1) by simp
  show 2: "toordinal dt \<le> days_before_year (year dt + 1)"
    unfolding t days_before_year_step using b(2) by (simp split: if_splits)
  have "days_before_year 1 \<le> days_before_year (year dt)"
    by (rule days_before_year_mono) (rule y(1))
  with 1 show "1 \<le> toordinal dt" by (simp add: days_before_year_1)
  have "days_before_year (year dt + 1) \<le> days_before_year 10000"
    by (rule days_before_year_mono) (use y(2) in simp)
  with 2 show "toordinal dt \<le> MAXORDINAL"
    by (simp add: days_before_year_10000 MAXORDINAL_def)
qed

lemma fromordinal_correct:
  assumes "1 \<le> n" "n \<le> MAXORDINAL"
  shows "\<exists>dt. fromordinal n = Inr dt \<and> valid_date dt \<and> toordinal dt = n"
proof -
  from ord2ymd_correct[OF assms] obtain y m d where o: "ord2ymd n = (y, m, d)"
    and v: "MINYEAR \<le> y" "y \<le> MAXYEAR" "1 \<le> m" "m \<le> 12" "1 \<le> d" "d \<le> days_in_month y m"
    and t: "ymd2ord y m d = n" by blast
  from v have "date_new y m d = Inr \<lparr>year = y, month = m, day = d\<rparr>" by (rule date_new_Inr)
  with o have "fromordinal n = Inr \<lparr>year = y, month = m, day = d\<rparr>"
    by (simp add: fromordinal_def)
  moreover from v have "valid_date \<lparr>year = y, month = m, day = d\<rparr>"
    by (simp add: valid_date_def)
  moreover from t have "toordinal \<lparr>year = y, month = m, day = d\<rparr> = n"
    by (simp add: toordinal_def)
  ultimately show ?thesis by blast
qed

lemma date_add_correct:
  assumes "1 \<le> toordinal dt + k" "toordinal dt + k \<le> MAXORDINAL"
  shows "\<exists>dt'. date_add dt k = Inr dt' \<and> valid_date dt' \<and> toordinal dt' = toordinal dt + k"
proof -
  from assms have "date_add dt k = fromordinal (toordinal dt + k)"
    by (simp add: date_add_def Let_def)
  with fromordinal_correct[OF assms] show ?thesis by simp
qed

lemma date_add_overflow:
  assumes "\<not> (1 \<le> toordinal dt + k \<and> toordinal dt + k \<le> MAXORDINAL)"
  shows "date_add dt k = Inl (OverflowError ''date value out of range'')"
  using assms by (auto simp: date_add_def Let_def)

lemma date_key_less_cases:
  assumes "date_key a < date_key b"
  shows "year a < year b \<or> (year a = year b \<and> month a < month b)
     \<or> (year a = year b \<and> month a = month b \<and> day a < day b)"
  using assms by (auto simp: date_key_def less_prod_def)

lemma toordinal_less:
  assumes a: "valid_date a" and b: "valid_date b" and l: "date_key a < date_key b"
  shows "toordinal a < toordinal b"
proof -
  from a have ma: "1 \<le> month a" "month a \<le> 12"
    and da: "1 \<le> day a" "day a \<le> days_in_month (year a) (month a)"
    by (simp_all add: valid_date_def)
  from b have mb: "1 \<le> month b" "month b \<le> 12"
    and db: "1 \<le> day b" "day b \<le> days_in_month (year b) (month b)"
    by (simp_all add: valid_date_def)
  from date_key_less_cases[OF l] consider
      (y) "year a < year b" | (m) "year a = year b" "month a < month b"
    | (d) "year a = year b" "month a = month b" "day a < day b" by blast
  then show ?thesis
  proof cases
    case y
    then have "days_before_year (year a + 1) \<le> days_before_year (year b)"
      by (intro days_before_year_mono) simp
    with toordinal_bounds(2)[OF a] toordinal_bounds(1)[OF b] show ?thesis by linarith
  next
    case m
    from days_before_month_next[OF ma(1) m(2) mb(2), of "year a"] da(2) db(1) m(1)
    show ?thesis by (simp add: toordinal_def ymd2ord_def)
  next
    case d
    then show ?thesis by (simp add: toordinal_def ymd2ord_def)
  qed
qed

lemma date_key_inj: "date_key a = date_key b \<Longrightarrow> a = b" for a b :: date
  by (cases a; cases b) (simp add: date_key_def)

lemma date_le_iff_toordinal:
  assumes a: "valid_date a" and b: "valid_date b"
  shows "date_le a b \<longleftrightarrow> toordinal a \<le> toordinal b"
proof
  assume "date_le a b"
  then have "date_key a < date_key b \<or> date_key a = date_key b"
    by (auto simp: date_le_def)
  then show "toordinal a \<le> toordinal b"
    using toordinal_less[OF a b] date_key_inj[of a b] by auto
next
  assume t: "toordinal a \<le> toordinal b"
  show "date_le a b"
  proof (rule ccontr)
    assume "\<not> date_le a b"
    then have "date_key b < date_key a" by (simp add: date_le_def not_le)
    from toordinal_less[OF b a this] t show False by simp
  qed
qed


section \<open>The window and the weekend shift\<close>

lemma date_new_valid:
  assumes "date_new y m d = Inr dt"
  shows "valid_date dt" and "dt = \<lparr>year = y, month = m, day = d\<rparr>"
  using assms by (auto simp: date_new_def valid_date_def split: if_splits)

lemma weekday_range: "0 \<le> weekday dt \<and> weekday dt < 7"
  by (simp add: weekday_def)




lemma this_year_birthday_valid:
  assumes "this_year_birthday y m d = Inr (Some dt)"
  shows "valid_date dt"
proof (cases "date_new y m d")
  case (Inr x)
  with assms have "x = dt" by (simp add: this_year_birthday_def)
  with Inr show ?thesis using date_new_valid(1) by blast
next
  case (Inl e)
  with assms have "date_new y 2 28 = Inr dt"
    by (cases e; cases "date_new y 2 28") (auto simp: this_year_birthday_def split: if_splits)
  then show ?thesis by (rule date_new_valid(1))
qed

lemma candidate_of_valid:
  assumes "valid_date bty" "candidate_of today bty m d = Inr candidate"
  shows "valid_date candidate"
  using assms by (auto simp: candidate_of_def split: if_splits dest: date_new_valid(1))

lemma date_add_Inr:
  assumes "date_add dt k = Inr dt'"
  shows "valid_date dt'" and "toordinal dt' = toordinal dt + k"
proof -
  from assms have b: "1 \<le> toordinal dt + k" "toordinal dt + k \<le> MAXORDINAL"
    by (auto simp: date_add_def Let_def split: if_splits)
  from date_add_correct[OF b] assms show "valid_date dt'" "toordinal dt' = toordinal dt + k"
    by auto
qed

lemma date_add_week:
  assumes "valid_date today" "year today < MAXYEAR"
  shows "\<exists>end_date. date_add today 7 = Inr end_date"
proof -
  from assms(2) have "year today + 1 \<le> 9999" by (simp add: MAXYEAR_def)
  then have "days_before_year (year today + 1) \<le> days_before_year 9999"
    by (rule days_before_year_mono)
  with toordinal_bounds(2)[OF assms(1)] have "toordinal today + 7 \<le> MAXORDINAL"
    by (simp add: days_before_year_9999 MAXORDINAL_def)
  moreover from toordinal_bounds(3)[OF assms(1)] have "1 \<le> toordinal today + 7" by simp
  ultimately show ?thesis using date_add_correct by blast
qed

lemma candidate_of_total:
  assumes "valid_date today" "year today < MAXYEAR" "valid_date bday"
  shows "\<exists>candidate. candidate_of today bty (month bday) (day bday) = Inr candidate"
proof (cases "date_ge bty today")
  case True then show ?thesis by (simp add: candidate_of_def)
next
  case False
  from assms(1,2) have y1: "MINYEAR \<le> year today + 1" "year today + 1 \<le> MAXYEAR"
    by (simp_all add: valid_date_def MINYEAR_def)
  from roll_forward_eq[OF y1 assms(3)] False show ?thesis
    unfolding candidate_of_def by simp
qed

lemma upcoming_loop_mset:
  assumes "upcoming_loop today end_date rs acc = Inr es"
  shows "mset es = mset acc + mset (concat (map (\<lambda>r. case upcoming_of today end_date r of
            Inr (Some e) \<Rightarrow> [e] | _ \<Rightarrow> []) rs))"
  using assms
proof (induction rs arbitrary: acc)
  case Nil then show ?case by simp
next
  case (Cons r rs)
  show ?case
  proof (cases "upcoming_of today end_date r")
    case (Inl e) with Cons.prems show ?thesis by simp
  next
    case (Inr x)
    show ?thesis
    proof (cases x)
      case None
      with Inr Cons.prems have "upcoming_loop today end_date rs acc = Inr es" by simp
      from Cons.IH[OF this] Inr None show ?thesis by simp
    next
      case (Some e)
      with Inr Cons.prems have "upcoming_loop today end_date rs (acc @ [e]) = Inr es" by simp
      from Cons.IH[OF this] Inr Some show ?thesis by simp
    qed
  qed
qed

lemma get_upcoming_birthdays_mset:
  assumes "get_upcoming_birthdays today book = Inr es" "date_add today 7 = Inr end_date"
  shows "mset es = mset (concat (map (\<lambda>r. case upcoming_of today end_date r of
            Inr (Some e) \<Rightarrow> [e] | _ \<Rightarrow> []) (map snd book)))"
proof -
  from assms obtain upcoming where u: "upcoming_loop today end_date (map snd book) [] = Inr upcoming"
    and es: "es = sort_upcoming upcoming"
    by (auto simp: get_upcoming_birthdays_def split: sum.splits)
  from upcoming_loop_mset[OF u] es show ?thesis by (simp add: sort_upcoming_def)
qed



end
